theory Spec2Isabelle
  imports Main "HOL-Library.Sublist" "HOL-Library.Log_Nat" "HOL-Library.Char_ord"
    "HOL-Library.List_Lexorder" "HOL-Library.Multiset"
begin

section \<open>TalentScan: resume scoring and the submission store\<close>

text \<open>
  A shallow embedding of \<^verbatim>\<open>src/TalentScan/app.py\<close>: the attribute extractors
  (\<^verbatim>\<open>find_years_of_experience\<close>, \<^verbatim>\<open>find_education\<close>), the scorer
  (\<^verbatim>\<open>score_resume\<close>), the upload check (\<^verbatim>\<open>allowed_file\<close>), the submit handler and
  the listing of the \<^verbatim>\<open>resumes\<close> table.

  Conventions of the model.
  \<^item> A Python \<^verbatim>\<open>str\<close> is a \<open>string\<close>; a \<open>char\<close> stands for the code point of the same
    number, so the texts covered are those over the code points 0..255 (ASCII and
    Latin-1). Case mapping, white space and digits are the ones Python gives these
    code points.
  \<^item> A Python \<^verbatim>\<open>int\<close> is an \<open>int\<close>. An exception is a value of the type \<open>error\<close>, and a
    function that can raise returns \<open>error + 'a\<close>. \<^verbatim>\<open>int(token)\<close> raises \<^verbatim>\<open>ValueError\<close> for a
    token of more than 4300 digits, the interpreter's limit when the program does not
    set another, as this one does not.
  \<^item> A Python \<^verbatim>\<open>float\<close> is the rational number it denotes. Every arithmetic operation
    on floats is the exact operation followed by \<open>fl\<close>, rounding to 53 significant bits
    with ties to even (IEEE 754 binary64); the exponent range is not modelled, since
    the floats of this program lie between \<open>2\<^sup>-\<^sup>6\<^sup>3\<close> and 110.
  \<^item> The two calls of \<^verbatim>\<open>re.findall\<close> are run by a small backtracking matcher that
    lists the ways a pattern matches at a position in the order in which Python's
    \<^verbatim>\<open>re\<close> tries them; the first one is the match \<^verbatim>\<open>re\<close> reports.
  \<^item> The libraries outside the repository (\<^verbatim>\<open>secure_filename\<close>, the PDF and DOCX
    parsers) and the clock are parameters, collected in the record \<open>env\<close>.
\<close>

subsection \<open>Characters and strings\<close>

definition code_point :: "char \<Rightarrow> nat" where
  "code_point c = of_char c"

text \<open>\<^verbatim>\<open>str.isspace\<close> on one character, which is also \<^verbatim>\<open>\s\<close> of a \<^verbatim>\<open>str\<close> pattern:
  TAB..CR, FS..US, space, NEL and the no-break space.\<close>

definition py_isspace :: "char \<Rightarrow> bool" where
  "py_isspace c = (let n = code_point c in
     (9 \<le> n \<and> n \<le> 13) \<or> (28 \<le> n \<and> n \<le> 32) \<or> n = 133 \<or> n = 160)"

text \<open>\<^verbatim>\<open>\d\<close>: the decimal digits; below 256 these are \<^verbatim>\<open>0\<close>..\<^verbatim>\<open>9\<close>.\<close>

definition is_digit :: "char \<Rightarrow> bool" where
  "is_digit c = (let n = code_point c in 48 \<le> n \<and> n \<le> 57)"

text \<open>\<^verbatim>\<open>str.isdigit\<close> on one character: the decimal digits and the superscripts
  one, two and three.\<close>

definition py_isdigit_char :: "char \<Rightarrow> bool" where
  "py_isdigit_char c = (let n = code_point c in
     (48 \<le> n \<and> n \<le> 57) \<or> n = 178 \<or> n = 179 \<or> n = 185)"

definition py_isdigit :: "string \<Rightarrow> bool" where
  "py_isdigit s = (s \<noteq> [] \<and> list_all py_isdigit_char s)"

text \<open>\<^verbatim>\<open>str.lower\<close>: \<^verbatim>\<open>A\<close>..\<^verbatim>\<open>Z\<close> and the Latin-1 capitals (all of 192..222 but the
  multiplication sign 215) move up by 32; every other code point below 256 stays.\<close>

definition lower_char :: "char \<Rightarrow> char" where
  "lower_char c = (let n = code_point c in
     if (65 \<le> n \<and> n \<le> 90) \<or> (192 \<le> n \<and> n \<le> 222 \<and> n \<noteq> 215)
     then char_of (n + 32) else c)"

definition py_lower :: "string \<Rightarrow> string" where
  "py_lower s = map lower_char s"

definition py_strip :: "string \<Rightarrow> string" where
  "py_strip s = rev (dropWhile py_isspace (rev (dropWhile py_isspace s)))"

text \<open>\<^verbatim>\<open>s in t\<close> on strings: \<open>s\<close> is a prefix of some suffix of \<open>t\<close>.\<close>

fun py_in :: "string \<Rightarrow> string \<Rightarrow> bool" where
  "py_in s [] = (s = [])"
| "py_in s (c # cs) = (prefix s (c # cs) \<or> py_in s cs)"

text \<open>The exceptions that the program lets through.\<close>

datatype error = IndexError | OverflowError | ValueError

text \<open>The integer that a run of decimal digits writes.\<close>

definition digit_val :: "char \<Rightarrow> int" where
  "digit_val c = int (code_point c) - 48"

definition decimal_value :: "string \<Rightarrow> int" where
  "decimal_value s = foldl (\<lambda>n c. 10 * n + digit_val c) 0 s"

text \<open>\<^verbatim>\<open>sys.get_int_max_str_digits()\<close>, as the interpreter starts.\<close>

definition int_max_str_digits :: nat where
  "int_max_str_digits = 4300"

text \<open>\<^verbatim>\<open>int(s)\<close> for a string that has passed \<^verbatim>\<open>str.isdigit\<close> (so it has no sign, white
  space or underscore): \<^verbatim>\<open>ValueError\<close> when a character is not a decimal digit (a
  superscript is not), and when there are more digits than the limit, leading zeros
  counted.\<close>

definition py_int :: "string \<Rightarrow> error + int" where
  "py_int s =
     (if s = [] \<or> \<not> list_all is_digit s \<or> int_max_str_digits < length s
      then Inl ValueError else Inr (decimal_value s))"

text \<open>A loop that appends \<open>f x\<close> for each \<open>x\<close> of a list, and stops at the first \<open>x\<close> for
  which \<open>f\<close> raises.\<close>

fun collect :: "('a \<Rightarrow> error + 'b) \<Rightarrow> 'a list \<Rightarrow> error + 'b list" where
  "collect f [] = Inr []"
| "collect f (x # xs) =
     (case f x of
        Inl e \<Rightarrow> Inl e
      | Inr y \<Rightarrow> (case collect f xs of Inl e \<Rightarrow> Inl e | Inr ys \<Rightarrow> Inr (y # ys)))"

text \<open>\<^verbatim>\<open>s.split(d)\<close> for a one-character separator, and \<^verbatim>\<open>sep.join(xs)\<close>.\<close>

fun split_on :: "char \<Rightarrow> string \<Rightarrow> string list" where
  "split_on d [] = [[]]"
| "split_on d (c # cs) =
     (if c = d then [] # split_on d cs
      else (case split_on d cs of [] \<Rightarrow> [[c]] | w # ws \<Rightarrow> (c # w) # ws))"

fun py_join :: "string \<Rightarrow> string list \<Rightarrow> string" where
  "py_join sep [] = []"
| "py_join sep [x] = x"
| "py_join sep (x # y # ys) = x @ sep @ py_join sep (y # ys)"

text \<open>\<^verbatim>\<open>s.rsplit(".", 1)[1]\<close>: what follows the last dot; \<^verbatim>\<open>IndexError\<close> (here \<open>None\<close>)
  when \<open>s\<close> has no dot.\<close>

definition rsplit_dot :: "string \<Rightarrow> string option" where
  "rsplit_dot s =
     (if CHR ''.'' \<in> set s then Some (rev (takeWhile (\<lambda>c. c \<noteq> CHR ''.'') (rev s))) else None)"

subsection \<open>Regular expressions as \<^verbatim>\<open>re\<close> runs them\<close>

text \<open>
  \<open>Atom p\<close> matches one character satisfying \<open>p\<close>, \<open>Star\<close> is the greedy \<^verbatim>\<open>*\<close>,
  \<open>Grp i\<close> is the capturing group number \<open>i\<close>. A matcher state is the captures made
  so far (latest first) and the text still to read. \<open>ms r st\<close> lists every state in
  which a match of \<open>r\<close> from \<open>st\<close> can end, in the order of \<^verbatim>\<open>re\<close>'s backtracking: the left
  alternative before the right one, one more round of a star before stopping.
\<close>

datatype rx = Atom "char \<Rightarrow> bool" | Seq rx rx | Alt rx rx | Star rx | Grp nat rx

type_synonym mstate = "(nat \<times> string) list \<times> string"

function ms :: "rx \<Rightarrow> mstate \<Rightarrow> mstate list" where
  "ms (Atom p) st =
     (case snd st of [] \<Rightarrow> [] | x # xs \<Rightarrow> if p x then [(fst st, xs)] else [])"
| "ms (Seq a b) st = concat (map (ms b) (ms a st))"
| "ms (Alt a b) st = ms a st @ ms b st"
| "ms (Star a) st =
     concat (map (\<lambda>st'. if length (snd st') < length (snd st) then ms (Star a) st' else [])
                 (ms a st)) @ [st]"
| "ms (Grp i a) st =
     map (\<lambda>st'. ((i, take (length (snd st) - length (snd st')) (snd st)) # fst st', snd st'))
         (ms a st)"
  by pat_completeness auto
termination
  by (relation "inv_image (less_than <*lex*> less_than) (\<lambda>(r, st). (size r, length (snd st)))")
     auto

text \<open>\<^verbatim>\<open>m.group(i)\<close> as \<^verbatim>\<open>findall\<close> reports it: the empty string for a group that took
  no part in the match.\<close>

definition match_group :: "(nat \<times> string) list \<Rightarrow> nat \<Rightarrow> string" where
  "match_group caps i = (case map_of caps i of None \<Rightarrow> [] | Some g \<Rightarrow> g)"

text \<open>
  The scan of \<^verbatim>\<open>re.finditer\<close>: the first match at the leftmost position that has one,
  then on from the end of that match. Each item is the captures and the matched
  text. The branch for a match of no character (report it, move one character on) is
  never taken by the two patterns of this program, which read at least two characters.
\<close>

function finditer :: "rx \<Rightarrow> string \<Rightarrow> ((nat \<times> string) list \<times> string) list" where
  "finditer r s =
     (case ms r ([], s) of
        [] \<Rightarrow> (case s of [] \<Rightarrow> [] | x # xs \<Rightarrow> finditer r xs)
      | (caps, rest) # _ \<Rightarrow>
          if length rest < length s
          then (caps, take (length s - length rest) s) # finditer r rest
          else (caps, []) # (case s of [] \<Rightarrow> [] | x # xs \<Rightarrow> finditer r xs))"
  by pat_completeness auto
termination
  by (relation "measure (\<lambda>(r, s). length s)") auto

declare ms.simps [simp del]
declare finditer.simps [simp del]

definition rx_plus :: "rx \<Rightarrow> rx" where
  "rx_plus r = Seq r (Star r)"

text \<open>A pattern character under \<^verbatim>\<open>re.I\<close>: it matches the characters with the same
  lower-case form.\<close>

definition ilit :: "char \<Rightarrow> rx" where
  "ilit c = Atom (\<lambda>x. lower_char x = lower_char c)"

definition digits_rx :: rx where
  "digits_rx = rx_plus (Atom is_digit)"

definition spaces_rx :: rx where
  "spaces_rx = Star (Atom py_isspace)"

definition year_rx :: rx where
  "year_rx = Seq (ilit CHR ''y'') (Seq (ilit CHR ''e'') (Seq (ilit CHR ''a'') (ilit CHR ''r'')))"

definition years_word_rx :: rx where
  "years_word_rx = Seq year_rx (ilit CHR ''s'')"

text \<open>\<^verbatim>\<open>(\d+)\s*\+\s*years|(\d+)\s+years|(\d+)-year\<close> with \<^verbatim>\<open>flags=re.I\<close>.\<close>

definition years_rx :: rx where
  "years_rx =
     Alt (Seq (Grp 1 digits_rx)
            (Seq spaces_rx (Seq (ilit CHR ''+'') (Seq spaces_rx years_word_rx))))
      (Alt (Seq (Grp 2 digits_rx) (Seq (rx_plus (Atom py_isspace)) years_word_rx))
           (Seq (Grp 3 digits_rx) (Seq (ilit CHR ''-'') year_rx)))"

text \<open>\<^verbatim>\<open>[A-Za-z\+#]{2,}\<close>, without flags.\<close>

definition word_char :: "char \<Rightarrow> bool" where
  "word_char c = (let n = code_point c in
     (65 \<le> n \<and> n \<le> 90) \<or> (97 \<le> n \<and> n \<le> 122) \<or> c = CHR ''+'' \<or> c = CHR ''#'')"

definition words_rx :: rx where
  "words_rx = Seq (Atom word_char) (Seq (Atom word_char) (Star (Atom word_char)))"

subsection \<open>Floats\<close>

text \<open>Rounding to the nearest integer, a tie to the even one.\<close>

definition rhe :: "rat \<Rightarrow> int" where
  "rhe x = (let f = \<lfloor>x\<rfloor>; r = x - of_int f in
     if r < 1 / 2 then f else if 1 / 2 < r then f + 1 else if even f then f else f + 1)"

definition pow2 :: "int \<Rightarrow> rat" where
  "pow2 e = (if 0 \<le> e then 2 ^ nat e else 1 / 2 ^ nat (- e))"

text \<open>For \<open>0 < q\<close>, the binary exponent of \<open>q\<close>: the \<open>e\<close> with \<open>2\<^sup>e \<le> q < 2\<^sup>e\<^sup>+\<^sup>1\<close>.\<close>

definition ilog2 :: "rat \<Rightarrow> int" where
  "ilog2 q = (if 1 \<le> q then bitlen \<lfloor>q\<rfloor> - 1 else - bitlen (\<lceil>1 / q\<rceil> - 1))"

text \<open>The float nearest to \<open>q\<close>: \<open>q\<close> rounded to a multiple of \<open>2\<^sup>e\<^sup>-\<^sup>5\<^sup>2\<close>.\<close>

definition fl :: "rat \<Rightarrow> rat" where
  "fl q = (if q = 0 then 0
           else let g = pow2 (ilog2 \<bar>q\<bar> - 52) in of_int (rhe (q / g)) * g)"

text \<open>\<^verbatim>\<open>round(x, 1)\<close>: the decimal with one digit after the point nearest to the float
  \<open>x\<close> (a tie to the even digit), read back as a float.\<close>

definition py_round1 :: "rat \<Rightarrow> rat" where
  "py_round1 x = fl (of_int (rhe (x * 10)) / 10)"

subsection \<open>The attribute extractors\<close>

text \<open>The two loops of \<^verbatim>\<open>find_years_of_experience\<close> call \<^verbatim>\<open>int\<close> on the tokens that pass
  the test, match by match and group by group; the first call that raises ends the
  function.\<close>

definition find_years_of_experience :: "string \<Rightarrow> error + int" where
  "find_years_of_experience text =
     (let matches = map (\<lambda>(caps, m). [match_group caps 1, match_group caps 2, match_group caps 3])
                        (finditer years_rx text);
          tokens = concat (map (filter (\<lambda>token. token \<noteq> [] \<and> py_isdigit token)) matches)
      in case collect py_int tokens of
           Inl e \<Rightarrow> Inl e
         | Inr nums \<Rightarrow> Inr (case nums of [] \<Rightarrow> 0 | n # ns \<Rightarrow> fold max ns n))"

definition find_education :: "string \<Rightarrow> string" where
  "find_education text =
     (let text_l = py_lower text in
      if py_in ''phd'' text_l \<or> py_in ''ph.d'' text_l \<or> py_in ''doctorate'' text_l
      then ''PhD''
      else if py_in ''master'' text_l \<or> py_in ''ms '' text_l \<or> py_in ''m.sc'' text_l
              \<or> py_in ''Post-graduate'' text_l
      then ''Master''
      else if py_in ''bachelor'' text_l \<or> py_in ''b.s'' text_l \<or> py_in ''bs '' text_l
              \<or> py_in ''under-graduate'' text_l \<or> py_in ''be'' text_l
      then ''Bachelor''
      else ''Not specified'')"

subsection \<open>The scorer\<close>

record result =
  score :: rat
  matched_skills :: "string list"
  years :: int
  education :: string

text \<open>\<^verbatim>\<open>score_resume\<close> raises what \<^verbatim>\<open>find_years_of_experience\<close> raises.\<close>

definition score_resume :: "string \<Rightarrow> string list \<Rightarrow> error + result" where
  "score_resume text required_skills =
     (let text_l = py_lower text;
          skills = map (\<lambda>s. py_lower (py_strip s)) (filter (\<lambda>s. py_strip s \<noteq> []) required_skills);
          matched = filter (\<lambda>s. py_in s text_l) skills;
          skills_score = (if skills \<noteq> []
             then fl (fl (of_nat (length matched) / of_nat (length skills)) * 70) else 0)
      in case find_years_of_experience text of
           Inl e \<Rightarrow> Inl e
         | Inr yrs \<Rightarrow>
             let years_score = fl (fl (of_int (min yrs 10) / 10) * 30);
                 edu = find_education text;
                 edu_score = (if edu = ''PhD'' then 10 else if edu = ''Master'' then 7
                              else if edu = ''Bachelor'' then 4 else 0);
                 total = fl (fl (skills_score + years_score) + edu_score)
             in Inr \<lparr>score = py_round1 (min total 100), matched_skills = matched,
                     years = yrs, education = edu\<rparr>)"

subsection \<open>Uploads, the table and the handlers\<close>

definition ALLOWED_EXTENSIONS :: "string set" where
  "ALLOWED_EXTENSIONS = {''pdf'', ''docx''}"

definition allowed_file :: "string \<Rightarrow> bool" where
  "allowed_file filename =
     (CHR ''.'' \<in> set filename \<and>
      (case rsplit_dot filename of None \<Rightarrow> False
       | Some e \<Rightarrow> py_lower e \<in> ALLOWED_EXTENSIONS))"

text \<open>What the handler takes from outside the repository: werkzeug's
  \<^verbatim>\<open>secure_filename\<close>, the two parsers (\<open>None\<close> when the parser raises), and the three
  readings of the clock, already formatted.\<close>

record env =
  secure_filename :: "string \<Rightarrow> string"
  pdf_parser :: "string \<Rightarrow> string option"
  docx_parser :: "string \<Rightarrow> string option"
  stamp :: string
  created :: string
  shown :: string

text \<open>The columns of \<^verbatim>\<open>resumes\<close> but the id; a stored row is an id and its columns.\<close>

record columns =
  col_name :: string
  col_email :: string
  col_filename :: string
  col_score :: rat
  col_matches :: string
  col_years_experience :: int
  col_education :: string
  col_job_description :: string
  col_created_at :: string

record state =
  rows :: "(nat \<times> columns) list"
  last_id :: nat
  uploads :: "string \<rightharpoonup> string"

text \<open>\<^verbatim>\<open>extract_text\<close>: a parser that raises (also on a file that is not there) is
  caught, and the text is empty; so it is for any other extension.\<close>

definition extract_text :: "env \<Rightarrow> (string \<rightharpoonup> string) \<Rightarrow> string \<Rightarrow> string \<Rightarrow> string" where
  "extract_text e files filepath ext =
     (if ext = ''pdf''
      then (case files filepath of None \<Rightarrow> []
            | Some content \<Rightarrow> (case pdf_parser e content of None \<Rightarrow> [] | Some t \<Rightarrow> t))
      else if ext = ''docx''
      then (case files filepath of None \<Rightarrow> []
            | Some content \<Rightarrow> (case docx_parser e content of None \<Rightarrow> [] | Some t \<Rightarrow> t))
      else [])"

text \<open>The fallback of \<^verbatim>\<open>submit\<close> when no skill is given: the first ten words of the job
  description that are not stop words.\<close>

definition stop :: "string set" where
  "stop = {''and'', ''or'', ''the'', ''with'', ''to'', ''for'', ''of'', ''in'', ''on'', ''a'', ''an''}"

definition derive_skills :: "string \<Rightarrow> string list" where
  "derive_skills job_description =
     (let words = map snd (finditer words_rx job_description)
      in take 10 (filter (\<lambda>w. py_lower w \<notin> stop) words))"

text \<open>The \<^verbatim>\<open>INSERT\<close>: the id is the next of the \<^verbatim>\<open>AUTOINCREMENT\<close> sequence; sqlite3
  raises \<^verbatim>\<open>OverflowError\<close> for an integer outside 64 bits.\<close>

definition db_insert :: "state \<Rightarrow> columns \<Rightarrow> error + state" where
  "db_insert st c =
     (if col_years_experience c < - (2 ^ 63) \<or> 2 ^ 63 \<le> col_years_experience c
      then Inl OverflowError
      else Inr (st\<lparr>rows := rows st @ [(Suc (last_id st), c)], last_id := Suc (last_id st)\<rparr>))"

record request =
  form_name :: string
  form_email :: string
  form_job_description :: string
  form_skills :: string
  resume :: "(string \<times> string) option"

record view =
  view_name :: string
  view_email :: string
  view_score :: rat
  view_matched_skills :: "string list"
  view_years :: int
  view_education :: string
  view_filename :: string
  view_timestamp :: string

datatype response = Redirect string | Rendered view | ServerError error

text \<open>\<^verbatim>\<open>submit\<close>. A missing form field reads as the empty string; the uploaded file is
  its name and its content. \<open>Redirect m\<close> is \<^verbatim>\<open>flash(m)\<close> and the redirect to the form.\<close>

definition submit :: "env \<Rightarrow> state \<Rightarrow> request \<Rightarrow> response \<times> state" where
  "submit e st req =
     (let name = py_strip (form_name req);
          email = py_strip (form_email req);
          job_description = py_strip (form_job_description req);
          skills_raw = py_strip (form_skills req);
          skills = map py_strip (filter (\<lambda>s. py_strip s \<noteq> []) (split_on CHR '','' skills_raw))
      in case resume req of
           None \<Rightarrow> (Redirect ''Please attach a resume (PDF or DOCX).'', st)
         | Some (fname, content) \<Rightarrow>
             if fname = [] then (Redirect ''Please attach a resume (PDF or DOCX).'', st)
             else if \<not> allowed_file fname
             then (Redirect ''Unsupported file type. Allowed: pdf, docx'', st)
             else
               let filename = secure_filename e (stamp e @ ''_'' @ fname);
                   filepath = ''uploads/'' @ filename;
                   st1 = st\<lparr>uploads := (uploads st)(filepath \<mapsto> content)\<rparr>
               in (case rsplit_dot filename of
                    None \<Rightarrow> (ServerError IndexError, st1)
                  | Some x \<Rightarrow>
                      let text = extract_text e (uploads st1) filepath (py_lower x) in
                      if text = []
                      then (Redirect ''Could not extract text from the resume. Make sure the file is valid.'', st1)
                      else
                        let skills2 = (if skills = [] then derive_skills job_description else skills)
                        in (case score_resume text skills2 of
                              Inl err \<Rightarrow> (ServerError err, st1)
                            | Inr res \<Rightarrow>
                               (case db_insert st1
                                  \<lparr>col_name = name, col_email = email, col_filename = filename,
                                   col_score = score res,
                                   col_matches = py_join '','' (matched_skills res),
                                   col_years_experience = years res,
                                   col_education = education res,
                                   col_job_description = job_description,
                                   col_created_at = created e\<rparr> of
                                 Inl err \<Rightarrow> (ServerError err, st1)
                               | Inr st2 \<Rightarrow>
                                   (Rendered \<lparr>view_name = name, view_email = email,
                                      view_score = score res,
                                      view_matched_skills = matched_skills res,
                                      view_years = years res, view_education = education res,
                                      view_filename = filename, view_timestamp = shown e\<rparr>,
                                    st2)))))"

text \<open>\<^verbatim>\<open>admin\<close>: \<^verbatim>\<open>SELECT * FROM resumes ORDER BY created_at DESC\<close>. The texts are
  compared code point by code point, a proper prefix first. SQL leaves the order of
  rows with equal \<^verbatim>\<open>created_at\<close> open; SQLite lists them in the order of insertion, and
  so does the stable sort here.\<close>

definition admin :: "state \<Rightarrow> (nat \<times> columns) list" where
  "admin st = rev (sort_key (\<lambda>r. col_created_at (snd r)) (rev (rows st)))"

subsection \<open>The words of the specification\<close>

text \<open>The marker substrings of the three education categories, as \<^verbatim>\<open>find_education\<close>
  lists them, and what it is for a text to show a marker of a category.\<close>

definition phd_markers :: "string list" where
  "phd_markers = [''phd'', ''ph.d'', ''doctorate'']"

definition master_markers :: "string list" where
  "master_markers = [''master'', ''ms '', ''m.sc'', ''Post-graduate'']"

definition bachelor_markers :: "string list" where
  "bachelor_markers = [''bachelor'', ''b.s'', ''bs '', ''under-graduate'', ''be'']"

definition has_marker :: "string list \<Rightarrow> string \<Rightarrow> bool" where
  "has_marker markers text = list_ex (\<lambda>m. py_in m (py_lower text)) markers"

text \<open>The lowercased, trimmed forms of the supplied skills, those empty after trimming
  dropped.\<close>

definition normalised :: "string list \<Rightarrow> string list" where
  "normalised required_skills =
     map (\<lambda>s. py_lower (py_strip s)) (filter (\<lambda>s. py_strip s \<noteq> []) required_skills)"

text \<open>
  The patterns of \<^verbatim>\<open>find_years_of_experience\<close>, said without the matcher. \<open>d\<close> is the
  number, a non-empty run of decimal digits; \<open>m\<close> is a text of one of three forms:
  \<open>d\<close>, white space or none, \<^verbatim>\<open>+\<close>, white space or none, \<^verbatim>\<open>years\<close>; \<open>d\<close>, white space,
  \<^verbatim>\<open>years\<close>; \<open>d\<close>, \<^verbatim>\<open>-\<close>, \<^verbatim>\<open>year\<close>. The letters are compared after lowercasing. The number
  \<open>d\<close> occurs in a text when some part of the text has one of the forms.
\<close>

definition all_digits :: "string \<Rightarrow> bool" where
  "all_digits d = (d \<noteq> [] \<and> list_all is_digit d)"

definition form_plus :: "string \<Rightarrow> string \<Rightarrow> bool" where
  "form_plus d m = (\<exists>ws ws' y. list_all py_isspace ws \<and> list_all py_isspace ws'
      \<and> py_lower y = ''years'' \<and> m = d @ ws @ ''+'' @ ws' @ y)"

definition form_space :: "string \<Rightarrow> string \<Rightarrow> bool" where
  "form_space d m = (\<exists>ws y. ws \<noteq> [] \<and> list_all py_isspace ws
      \<and> py_lower y = ''years'' \<and> m = d @ ws @ y)"

definition form_dash :: "string \<Rightarrow> string \<Rightarrow> bool" where
  "form_dash d m = (\<exists>y. py_lower y = ''year'' \<and> m = d @ ''-'' @ y)"

definition year_match :: "string \<Rightarrow> string \<Rightarrow> bool" where
  "year_match d m = (all_digits d \<and> (form_plus d m \<or> form_space d m \<or> form_dash d m))"

definition occurs :: "string \<Rightarrow> string \<Rightarrow> bool" where
  "occurs text d = (\<exists>pre m post. text = pre @ m @ post \<and> year_match d m)"

text \<open>The same with the three patterns taken to the letter, one space where the
  specification writes one: \<^verbatim>\<open><N>+ years\<close>, \<^verbatim>\<open><N> years\<close>, \<^verbatim>\<open><N>-year\<close>.\<close>

definition literal_match :: "string \<Rightarrow> string \<Rightarrow> bool" where
  "literal_match d m = (all_digits d \<and>
     (\<exists>y. (py_lower y = ''+ years'' \<or> py_lower y = '' years'' \<or> py_lower y = ''-year'')
        \<and> m = d @ y))"

definition occurs_literally :: "string \<Rightarrow> string \<Rightarrow> bool" where
  "occurs_literally text d = (\<exists>pre m post. text = pre @ m @ post \<and> literal_match d m)"

text \<open>The tokens \<^verbatim>\<open>find_years_of_experience\<close> reads off the items of a scan, and the
  greatest of a list of numbers, 0 for none.\<close>

definition tok_strs :: "(nat \<times> string) list \<Rightarrow> string list" where
  "tok_strs caps = filter (\<lambda>token. token \<noteq> [] \<and> py_isdigit token)
       [match_group caps 1, match_group caps 2, match_group caps 3]"

definition toks_of :: "((nat \<times> string) list \<times> string) list \<Rightarrow> string list" where
  "toks_of items = concat (map (\<lambda>(caps, m). tok_strs caps) items)"

definition max_or_0 :: "int list \<Rightarrow> int" where
  "max_or_0 nums = (case nums of [] \<Rightarrow> 0 | n # ns \<Rightarrow> fold max ns n)"

text \<open>
  The skill list of a request. \<open>supplied_skills\<close> is the list the caller supplies, the
  entries of the form field \<^verbatim>\<open>skills\<close> between commas, trimmed, the empty ones left out;
  \<open>requested_skills\<close> is the list the submission is scored against: the supplied one
  or, when that is empty, the keywords derived from the job description.
\<close>

definition supplied_skills :: "request \<Rightarrow> string list" where
  "supplied_skills req =
     map py_strip (filter (\<lambda>s. py_strip s \<noteq> [])
       (split_on CHR '','' (py_strip (form_skills req))))"

definition requested_skills :: "request \<Rightarrow> string list" where
  "requested_skills req =
     (if supplied_skills req = [] then derive_skills (py_strip (form_job_description req))
      else supplied_skills req)"

text \<open>
  A request is rejected when the answer is a flashed message and the redirect to the
  form. \<open>upload_text\<close> is the text the handler extracts from an upload it has stored
  (\<open>None\<close> when it fails before extracting). \<open>no_valid_upload\<close> puts the three grounds
  for rejection together: no file, an extension that is not allowed, an empty text.
\<close>

definition is_rejection :: "response \<Rightarrow> bool" where
  "is_rejection r =
     (case r of Redirect m \<Rightarrow> True | Rendered v \<Rightarrow> False | ServerError x \<Rightarrow> False)"

definition upload_text :: "env \<Rightarrow> state \<Rightarrow> string \<Rightarrow> string \<Rightarrow> string option" where
  "upload_text e st fname content =
     (let filename = secure_filename e (stamp e @ ''_'' @ fname);
          filepath = ''uploads/'' @ filename
      in case rsplit_dot filename of
           None \<Rightarrow> None
         | Some x \<Rightarrow>
             Some (extract_text e ((uploads st)(filepath \<mapsto> content)) filepath (py_lower x)))"

definition no_valid_upload :: "env \<Rightarrow> state \<Rightarrow> request \<Rightarrow> bool" where
  "no_valid_upload e st req =
     (case resume req of
        None \<Rightarrow> True
      | Some (fname, content) \<Rightarrow>
          fname = [] \<or> \<not> allowed_file fname \<or> upload_text e st fname content = Some [])"

text \<open>A sample environment, an empty store and a sample request, for the concrete
  runs below.\<close>

definition demo_env :: env where
  "demo_env = \<lparr>secure_filename = (\<lambda>s. s), pdf_parser = (\<lambda>c. Some c),
     docx_parser = (\<lambda>c. None), stamp = ''20240102030405'',
     created = ''2024-01-02T03:04:05.000006'', shown = ''2024-01-02 03:04 UTC''\<rparr>"

definition demo_state :: state where
  "demo_state = \<lparr>rows = [], last_id = 0, uploads = (\<lambda>p. None)\<rparr>"

definition demo_request :: "string \<Rightarrow> string \<Rightarrow> request" where
  "demo_request fname content = \<lparr>form_name = '' Ada '', form_email = ''ada@example.org'',
     form_job_description = [], form_skills = ''Python, SQL'',
     resume = Some (fname, content)\<rparr>"

definition fallback_request :: request where
  "fallback_request = \<lparr>form_name = ''Bo'', form_email = ''bo@example.org'',
     form_job_description = ''Go developer'', form_skills = [],
     resume = Some (''cv.pdf'', ''Go developer, 3 years'')\<rparr>"

definition fallback_view :: view where
  "fallback_view = \<lparr>view_name = ''Bo'', view_email = ''bo@example.org'',
     view_score = 79,
     view_matched_skills = [''go'', ''developer''], view_years = 3,
     view_education = ''Not specified'', view_filename = ''20240102030405_cv.pdf'',
     view_timestamp = ''2024-01-02 03:04 UTC''\<rparr>"

definition demo_columns :: columns where
  "demo_columns = \<lparr>col_name = ''Ada'', col_email = ''ada@example.org'',
     col_filename = ''20240102030405_cv.pdf'', col_score = 50, col_matches = ''python'',
     col_years_experience = 5, col_education = ''Not specified'',
     col_job_description = [], col_created_at = ''2024-01-02T03:04:05.000006''\<rparr>"

section \<open>Strings\<close>

lemma py_in_iff: "py_in s t \<longleftrightarrow> (\<exists>pre post. t = pre @ s @ post)"
proof (induction t)
  case Nil
  then show ?case by auto
next
  case (Cons c cs)
  show ?case
  proof
    assume "py_in s (c # cs)"
    then consider "prefix s (c # cs)" | "py_in s cs" by auto
    then show "\<exists>pre post. c # cs = pre @ s @ post"
    proof cases
      case 1
      then obtain post where "c # cs = s @ post" by (auto simp: prefix_def)
      then have "c # cs = [] @ s @ post" by simp
      then show ?thesis by blast
    next
      case 2
      with Cons.IH obtain pre post where "cs = pre @ s @ post" by blast
      then have "c # cs = (c # pre) @ s @ post" by simp
      then show ?thesis by blast
    qed
  next
    assume "\<exists>pre post. c # cs = pre @ s @ post"
    then obtain pre post where eq: "c # cs = pre @ s @ post" by blast
    show "py_in s (c # cs)"
    proof (cases pre)
      case Nil
      with eq have "prefix s (c # cs)" by (simp add: prefix_def)
      then show ?thesis by simp
    next
      case (Cons p ps)
      with eq have "cs = ps @ s @ post" by simp
      with Cons.IH have "py_in s cs" by blast
      then show ?thesis by simp
    qed
  qed
qed

lemma decimal_value_acc_nonneg:
  "list_all py_isdigit_char s \<Longrightarrow> 0 \<le> n \<Longrightarrow> 0 \<le> foldl (\<lambda>n c. 10 * n + digit_val c) n s"
proof (induction s arbitrary: n)
  case Nil
  then show ?case by simp
next
  case (Cons c cs)
  from Cons.prems(1) have "0 \<le> digit_val c"
    by (auto simp: py_isdigit_char_def digit_val_def Let_def)
  with Cons.prems(2) have "0 \<le> 10 * n + digit_val c" by simp
  with Cons.IH Cons.prems(1) show ?case by simp
qed

lemma decimal_value_nonneg: "py_isdigit s \<Longrightarrow> 0 \<le> decimal_value s"
  by (simp add: py_isdigit_def decimal_value_def decimal_value_acc_nonneg)

section \<open>Rounding\<close>

lemma rhe_le: "x \<le> of_int n \<Longrightarrow> rhe x \<le> n"
proof -
  assume le: "x \<le> of_int n"
  show ?thesis
  proof (cases "x = of_int n")
    case True
    then show ?thesis by (simp add: rhe_def)
  next
    case False
    with le have "x < of_int n" by simp
    then have "\<lfloor>x\<rfloor> < n" by (simp add: floor_less_iff)
    then show ?thesis by (simp add: rhe_def Let_def)
  qed
qed

lemma rhe_nonneg: "0 \<le> x \<Longrightarrow> 0 \<le> rhe x"
  by (simp add: rhe_def Let_def)

lemma pow2_pos: "0 < pow2 e"
  by (simp add: pow2_def)

lemma pow2_nonpos: "e \<le> 0 \<Longrightarrow> pow2 e = 1 / 2 ^ nat (- e)"
  by (cases "e = 0") (simp_all add: pow2_def)

lemma ilog2_le:
  assumes "0 < q" "q \<le> of_int n" "n \<le> 2 ^ 52"
  shows "ilog2 q \<le> 52"
proof (cases "1 \<le> q")
  case True
  have "\<lfloor>q\<rfloor> \<le> n" using assms(2) by (simp add: floor_le_iff)
  then have "\<lfloor>q\<rfloor> \<le> 2 ^ 52" using assms(3) by (rule order_trans)
  moreover have "(2::int) ^ 52 < 2 ^ nat 53" by simp
  ultimately have "\<lfloor>q\<rfloor> < 2 ^ nat 53" by (rule le_less_trans)
  then have "bitlen \<lfloor>q\<rfloor> \<le> 53" by (simp add: bitlen_le_iff_power)
  with True show ?thesis by (simp add: ilog2_def)
next
  case False
  have "0 \<le> bitlen (\<lceil>1 / q\<rceil> - 1)" by (rule bitlen_nonneg)
  with False show ?thesis by (simp add: ilog2_def)
qed

lemma fl_nonneg: "0 \<le> q \<Longrightarrow> 0 \<le> fl q"
  by (simp add: fl_def Let_def rhe_nonneg pow2_pos less_imp_le)

text \<open>Rounding to a float does not cross an integer up to \<open>2\<^sup>5\<^sup>2\<close>: these are floats.\<close>

lemma fl_le_int:
  assumes "0 \<le> q" "q \<le> of_int n" "n \<le> 2 ^ 52"
  shows "fl q \<le> of_int n"
proof (cases "q = 0")
  case True
  with assms(2) show ?thesis by (simp add: fl_def)
next
  case False
  with assms(1) have pos: "0 < q" by simp
  define k where "k = nat (52 - ilog2 q)"
  have "ilog2 q - 52 \<le> 0" using ilog2_le [OF pos assms(2,3)] by simp
  then have g: "pow2 (ilog2 q - 52) = 1 / 2 ^ k"
    by (simp add: pow2_nonpos k_def)
  have "q * 2 ^ k \<le> of_int n * 2 ^ k" using assms(2) by simp
  then have "q * 2 ^ k \<le> of_int (n * 2 ^ k)" by simp
  then have "rhe (q * 2 ^ k) \<le> n * 2 ^ k" by (rule rhe_le)
  then have "(of_int (rhe (q * 2 ^ k)) :: rat) \<le> of_int (n * 2 ^ k)"
    by (simp only: of_int_le_iff)
  then have "(of_int (rhe (q * 2 ^ k)) :: rat) / 2 ^ k \<le> of_int n"
    by (simp add: divide_le_eq)
  moreover have "fl q = of_int (rhe (q * 2 ^ k)) / 2 ^ k"
    using pos False by (simp add: fl_def Let_def g)
  ultimately show ?thesis by simp
qed

lemma py_round1_bounds:
  assumes "0 \<le> x" "x \<le> 100"
  shows "0 \<le> py_round1 x \<and> py_round1 x \<le> 100"
proof -
  have "0 \<le> rhe (x * 10)" using assms(1) by (simp add: rhe_nonneg)
  then have a: "(0::rat) \<le> of_int (rhe (x * 10)) / 10" by simp
  have "x * 10 \<le> of_int 1000" using assms(2) by simp
  then have "rhe (x * 10) \<le> 1000" by (rule rhe_le)
  then have "(of_int (rhe (x * 10)) :: rat) \<le> of_int 1000" by (simp only: of_int_le_iff)
  then have b: "(of_int (rhe (x * 10)) :: rat) / 10 \<le> of_int 100" by simp
  have "fl (of_int (rhe (x * 10)) / 10) \<le> of_int 100"
    by (rule fl_le_int [OF a b]) simp
  with fl_nonneg [OF a] show ?thesis by (simp add: py_round1_def)
qed

subsection \<open>\<open>fl\<close> rounds to the nearest float\<close>

lemma rhe_ge: "of_int n \<le> x \<Longrightarrow> n \<le> rhe x"
proof -
  assume "of_int n \<le> x"
  then have "n \<le> \<lfloor>x\<rfloor>" by (simp add: le_floor_iff)
  then show ?thesis by (simp add: rhe_def Let_def)
qed

lemma rhe_near: "\<bar>of_int (rhe x) - x\<bar> \<le> 1 / 2"
proof -
  define r where "r = x - of_int \<lfloor>x\<rfloor>"
  have r: "0 \<le> r" "r < 1" unfolding r_def by linarith+
  have x: "x = of_int \<lfloor>x\<rfloor> + r" by (simp add: r_def)
  have "rhe x = (if r < 1 / 2 then \<lfloor>x\<rfloor> else if 1 / 2 < r then \<lfloor>x\<rfloor> + 1
                 else if even \<lfloor>x\<rfloor> then \<lfloor>x\<rfloor> else \<lfloor>x\<rfloor> + 1)"
    by (simp add: rhe_def Let_def r_def)
  then consider "rhe x = \<lfloor>x\<rfloor>" "r \<le> 1 / 2" | "rhe x = \<lfloor>x\<rfloor> + 1" "1 / 2 \<le> r"
    by (auto split: if_splits)
  then show ?thesis
  proof cases
    case 1
    then have "of_int (rhe x) - x = - r" by (simp add: r_def)
    with r 1(2) show ?thesis by simp
  next
    case 2
    then have "of_int (rhe x) - x = 1 - r" by (simp add: r_def)
    with r 2(2) show ?thesis by simp
  qed
qed

lemma rhe_tie: "x - of_int \<lfloor>x\<rfloor> = 1 / 2 \<Longrightarrow> even (rhe x)"
  by (simp add: rhe_def Let_def)

lemma pow2_add: "pow2 (a + b) = pow2 a * pow2 b"
proof -
  have "pow2 e = power_int 2 e" for e
    by (simp add: pow2_def power_int_def inverse_eq_divide power_one_over)
  then show ?thesis by (simp add: power_int_add)
qed

lemma pow2_0: "pow2 0 = 1" by (simp add: pow2_def)
lemma pow2_1: "pow2 1 = 2" by (simp add: pow2_def)

lemma pow2_neg: "pow2 (- e) = 1 / pow2 e"
proof -
  have "pow2 (- e) * pow2 e = 1" using pow2_add [of "- e" e] by (simp add: pow2_0)
  then show ?thesis using pow2_pos [of e] by (simp add: field_simps)
qed

text \<open>\<open>ilog2\<close> is the binary exponent.\<close>

lemma ilog2_bounds:
  assumes "0 < q"
  shows "pow2 (ilog2 q) \<le> q \<and> q < pow2 (ilog2 q + 1)"
proof (cases "1 \<le> q")
  case True
  then have p: "0 < \<lfloor>q\<rfloor>" by simp
  define b where "b = bitlen \<lfloor>q\<rfloor>"
  from bitlen_bounds [OF p] have lo: "2 ^ nat (b - 1) \<le> \<lfloor>q\<rfloor>" and hi: "\<lfloor>q\<rfloor> < 2 ^ nat b"
    by (simp_all add: b_def)
  from p have b1: "1 \<le> b" unfolding b_def by (simp add: bitlen_ge_iff_power)
  have "(of_int (2 ^ nat (b - 1)) :: rat) \<le> of_int \<lfloor>q\<rfloor>" using lo by (simp only: of_int_le_iff)
  also have "\<dots> \<le> q" by simp
  finally have 1: "pow2 (b - 1) \<le> q" using b1 by (simp add: pow2_def)
  from hi have "\<lfloor>q\<rfloor> < 2 ^ nat b" .
  then have "q < of_int (2 ^ nat b)" by (simp only: floor_less_iff)
  then have 2: "q < pow2 b" using b1 by (simp add: pow2_def)
  from True 1 2 show ?thesis by (simp add: ilog2_def b_def)
next
  case False
  with assms have q1: "q < 1" by simp
  then have "1 < 1 / q" using assms by (simp add: field_simps)
  then have "1 < \<lceil>1 / q\<rceil>" by (simp add: less_ceiling_iff)
  define k where "k = \<lceil>1 / q\<rceil> - 1"
  have kpos: "0 < k" using \<open>1 < \<lceil>1 / q\<rceil>\<close> by (simp add: k_def)
  define b where "b = bitlen k"
  from bitlen_bounds [OF kpos] have lo: "2 ^ nat (b - 1) \<le> k" and hi: "k < 2 ^ nat b"
    by (simp_all add: b_def)
  from kpos have b1: "1 \<le> b" unfolding b_def by (simp add: bitlen_ge_iff_power)
  \<comment> \<open>\<open>k < 1 / q \<le> k + 1\<close>\<close>
  have kq: "of_int k < 1 / q" "1 / q \<le> of_int k + 1"
    unfolding k_def by (simp_all add: less_ceiling_iff[symmetric]) linarith+
  from hi have "k + 1 \<le> 2 ^ nat b" by simp
  then have "(of_int (k + 1) :: rat) \<le> of_int (2 ^ nat b)" by (simp only: of_int_le_iff)
  with kq(2) have "1 / q \<le> 2 ^ nat b" by simp
  then have "1 \<le> 2 ^ nat b * q" using assms by (simp add: field_simps)
  then have 1: "1 / 2 ^ nat b \<le> q" by (simp add: field_simps)
  have "(of_int (2 ^ nat (b - 1)) :: rat) \<le> of_int k" using lo by (simp only: of_int_le_iff)
  then have "(2::rat) ^ nat (b - 1) \<le> of_int k" by simp
  then have "2 ^ nat (b - 1) < 1 / q" using kq(1) by (rule le_less_trans)
  then have "2 ^ nat (b - 1) * q < 1" using assms by (simp add: field_simps)
  then have 2: "q < 1 / 2 ^ nat (b - 1)" by (simp add: field_simps)
  have e: "ilog2 q = - b" using False by (simp add: ilog2_def b_def k_def)
  have p1: "pow2 (- b) = 1 / 2 ^ nat b" using b1 by (simp add: pow2_def)
  have p2: "pow2 (- b + 1) = 1 / 2 ^ nat (b - 1)"
  proof (cases "b = 1")
    case True
    then show ?thesis by (simp add: pow2_def)
  next
    case False
    with b1 have "- b + 1 < 0" by simp
    moreover have "nat (- (- b + 1)) = nat (b - 1)" by simp
    ultimately show ?thesis by (simp add: pow2_def)
  qed
  from 1 2 show ?thesis unfolding e p1 p2 by simp
qed

lemma pow2_52: "pow2 52 = 2 ^ 52" "pow2 53 = 2 ^ 53"
  by (simp_all add: pow2_def)

lemma pow2_ge_1: "0 \<le> e \<Longrightarrow> 1 \<le> pow2 e"
  by (simp add: pow2_def)

lemma pow2_mono: "a \<le> b \<Longrightarrow> pow2 a \<le> pow2 b"
proof -
  assume "a \<le> b"
  then have "1 \<le> pow2 (b - a)" by (simp add: pow2_ge_1)
  then have "pow2 a * 1 \<le> pow2 a * pow2 (b - a)"
    using pow2_pos [of a] by (simp only: mult_le_cancel_left_pos)
  then show ?thesis using pow2_add [of a "b - a"] by simp
qed

lemma ilog2_unique:
  assumes "pow2 e \<le> q" "q < pow2 (e + 1)"
  shows "ilog2 q = e"
proof -
  from assms(1) pow2_pos [of e] have pos: "0 < q" by simp
  from ilog2_bounds [OF pos] have b: "pow2 (ilog2 q) \<le> q" "q < pow2 (ilog2 q + 1)" by simp_all
  have "\<not> ilog2 q + 1 \<le> e"
  proof
    assume "ilog2 q + 1 \<le> e"
    then have "pow2 (ilog2 q + 1) \<le> pow2 e" by (rule pow2_mono)
    with b(2) assms(1) show False by simp
  qed
  moreover have "\<not> e + 1 \<le> ilog2 q"
  proof
    assume "e + 1 \<le> ilog2 q"
    then have "pow2 (e + 1) \<le> pow2 (ilog2 q)" by (rule pow2_mono)
    with b(1) assms(2) show False by simp
  qed
  ultimately show ?thesis by simp
qed

text \<open>The float of a positive number: an integer of 53 bits times a power of two, at
  most half a unit in the last place away.\<close>

lemma fl_significand:
  assumes "0 < q"
  shows "\<exists>k. fl q = of_int k * pow2 (ilog2 q - 52) \<and> 2 ^ 52 \<le> k \<and> k \<le> 2 ^ 53"
proof -
  define g where "g = pow2 (ilog2 q - 52)"
  have g: "0 < g" by (simp add: g_def pow2_pos)
  have e: "pow2 (ilog2 q) = g * 2 ^ 52" "pow2 (ilog2 q + 1) = g * 2 ^ 53"
    using pow2_add [of "ilog2 q - 52" 52] pow2_add [of "ilog2 q - 52" 53]
    by (simp_all add: g_def pow2_52 add.commute del: power_numeral)
  from ilog2_bounds [OF assms] e have "g * 2 ^ 52 \<le> q" "q < g * 2 ^ 53" by simp_all
  then have qg: "of_int (2 ^ 52) \<le> q / g" "q / g \<le> of_int (2 ^ 53)"
    using g by (simp_all add: field_simps)
  have "2 ^ 52 \<le> rhe (q / g)" by (rule rhe_ge [OF qg(1)])
  moreover have "rhe (q / g) \<le> 2 ^ 53" by (rule rhe_le [OF qg(2)])
  moreover have "fl q = of_int (rhe (q / g)) * g"
    using assms by (simp add: fl_def Let_def g_def)
  ultimately show ?thesis unfolding g_def by blast
qed

lemma fl_error:
  assumes "0 < q"
  shows "\<bar>fl q - q\<bar> \<le> pow2 (ilog2 q - 53)"
proof -
  define g where "g = pow2 (ilog2 q - 52)"
  have g: "0 < g" by (simp add: g_def pow2_pos)
  have h: "pow2 (ilog2 q - 53) = g / 2"
    using pow2_add [of "ilog2 q - 53" 1] by (simp add: g_def pow2_1)
  have "fl q - q = (of_int (rhe (q / g)) - q / g) * g"
    using assms g by (simp add: fl_def Let_def g_def field_simps)
  then have "\<bar>fl q - q\<bar> = \<bar>of_int (rhe (q / g)) - q / g\<bar> * g"
    using g by (simp add: abs_mult)
  also have "\<dots> \<le> 1 / 2 * g"
    using rhe_near [of "q / g"] g by (simp only: mult_le_cancel_right_pos)
  finally show ?thesis by (simp add: h)
qed

lemma rhe_of_int: "rhe (of_int k) = k"
  by (simp add: rhe_def)

text \<open>A float is its own float.\<close>

lemma fl_float:
  assumes "2 ^ 52 \<le> k" "k < 2 ^ 53"
  shows "fl (of_int k * pow2 e) = of_int k * pow2 e"
proof -
  define q where "q = of_int k * pow2 e"
  have k: "(2::rat) ^ 52 \<le> of_int k" "of_int k < (2::rat) ^ 53"
    using assms by (metis of_int_le_iff of_int_numeral of_int_power,
        metis of_int_less_iff of_int_numeral of_int_power)
  have p: "pow2 (e + 52) = pow2 e * 2 ^ 52" "pow2 (e + 52 + 1) = pow2 e * 2 ^ 53"
    using pow2_add [of e 52] pow2_add [of e 53]
    by (simp_all add: pow2_52 add.assoc del: power_numeral)
  have "pow2 (e + 52) \<le> q" "q < pow2 (e + 52 + 1)"
    using k pow2_pos [of e] unfolding p q_def by (simp_all add: mult.commute)
  then have i: "ilog2 q = e + 52" by (rule ilog2_unique)
  have pos: "0 < q" using k pow2_pos [of e] by (simp add: q_def)
  then have "\<bar>q\<bar> = q" "q \<noteq> 0" by simp_all
  then have "fl q = of_int (rhe (q / pow2 e)) * pow2 e"
    by (simp add: fl_def Let_def i)
  also have "q / pow2 e = of_int k" using pow2_pos [of e] by (simp add: q_def)
  finally show ?thesis by (simp add: rhe_of_int q_def)
qed

section \<open>The years of experience are not negative\<close>

lemma py_int_Inr: "py_int s = Inr n \<Longrightarrow> py_isdigit s \<and> n = decimal_value s"
  by (auto simp: py_int_def py_isdigit_def list_all_iff is_digit_def py_isdigit_char_def Let_def
      split: if_splits)

lemma collect_Inr:
  "collect f xs = Inr ys \<Longrightarrow> length ys = length xs \<and> (\<forall>i < length xs. f (xs ! i) = Inr (ys ! i))"
proof (induction xs arbitrary: ys)
  case Nil
  then show ?case by simp
next
  case (Cons x xs)
  from Cons.prems obtain y ys' where y: "f x = Inr y" "collect f xs = Inr ys'" "ys = y # ys'"
    by (auto split: sum.splits)
  from Cons.IH [OF y(2)] y(1,3) show ?case by (auto simp: nth_Cons split: nat.splits)
qed

lemma collect_py_int_nonneg:
  assumes "collect py_int ts = Inr nums" "n \<in> set nums"
  shows "0 \<le> n"
proof -
  from assms(2) obtain i where i: "i < length nums" "nums ! i = n" by (auto simp: in_set_conv_nth)
  with collect_Inr [OF assms(1)] have "py_int (ts ! i) = Inr n" by simp
  then have "py_isdigit (ts ! i)" "n = decimal_value (ts ! i)" by (auto dest: py_int_Inr)
  then show ?thesis by (simp add: decimal_value_nonneg)
qed

lemma fold_max_ge: "(n::int) \<le> fold max ns n"
  by (induction ns arbitrary: n) (auto intro: order_trans [OF max.cobounded2])

lemma find_years_nonneg:
  assumes "find_years_of_experience text = Inr y"
  shows "0 \<le> y"
proof -
  define tokens where "tokens =
    concat (map (filter (\<lambda>token. token \<noteq> [] \<and> py_isdigit token))
     (map (\<lambda>(caps, m). [match_group caps 1, match_group caps 2, match_group caps 3])
        (finditer years_rx text)))"
  from assms obtain nums where c: "collect py_int tokens = Inr nums"
    and y: "y = (case nums of [] \<Rightarrow> 0 | n # ns \<Rightarrow> fold max ns n)"
    by (auto simp: find_years_of_experience_def Let_def tokens_def split: sum.splits)
  show ?thesis
  proof (cases nums)
    case Nil
    with y show ?thesis by simp
  next
    case (Cons n ns)
    with collect_py_int_nonneg [OF c, of n] have "0 \<le> n" by simp
    also have "n \<le> fold max ns n" by (rule fold_max_ge)
    finally show ?thesis using Cons y by simp
  qed
qed

section \<open>The score\<close>

lemma score_resume_Inr:
  assumes "score_resume text required_skills = Inr r"
  shows "\<exists>yrs. find_years_of_experience text = Inr yrs \<and> years r = yrs
     \<and> matched_skills r = filter (\<lambda>s. py_in s (py_lower text)) (normalised required_skills)
     \<and> education r = find_education text
     \<and> score r = py_round1 (min
          (fl (fl ((if normalised required_skills \<noteq> []
                    then fl (fl (of_nat (length (matched_skills r))
                                  / of_nat (length (normalised required_skills))) * 70)
                    else 0)
                   + fl (fl (of_int (min yrs 10) / 10) * 30))
               + (if find_education text = ''PhD'' then 10
                  else if find_education text = ''Master'' then 7
                  else if find_education text = ''Bachelor'' then 4 else 0))) 100)"
  using assms
  by (auto simp: score_resume_def Let_def normalised_def split: sum.splits)

lemma score_resume_Inl:
  "score_resume text required_skills = Inl e \<longleftrightarrow> find_years_of_experience text = Inl e"
  by (auto simp: score_resume_def Let_def split: sum.splits)

text \<open>
  C1. For every text and every list of required skills, the score that
  \<^verbatim>\<open>score_resume\<close> returns lies between 0 and 100, both included.
\<close>

theorem score_in_range:
  "score_resume text required_skills = Inr r \<Longrightarrow> 0 \<le> score r \<and> score r \<le> 100"
proof -
  assume ret: "score_resume text required_skills = Inr r"
  from score_resume_Inr [OF ret] obtain yrs where
    yrs: "find_years_of_experience text = Inr yrs"
    and sc: "score r = py_round1 (min
          (fl (fl ((if normalised required_skills \<noteq> []
                    then fl (fl (of_nat (length (matched_skills r))
                                  / of_nat (length (normalised required_skills))) * 70)
                    else 0)
                   + fl (fl (of_int (min yrs 10) / 10) * 30))
               + (if find_education text = ''PhD'' then 10
                  else if find_education text = ''Master'' then 7
                  else if find_education text = ''Bachelor'' then 4 else 0))) 100)"
    by blast
  define skills_score :: rat where "skills_score =
     (if normalised required_skills \<noteq> []
      then fl (fl (of_nat (length (matched_skills r))
                    / of_nat (length (normalised required_skills))) * 70)
      else 0)"
  define years_score where "years_score = fl (fl (of_int (min yrs 10) / 10) * 30)"
  define edu_score :: rat where "edu_score =
     (if find_education text = ''PhD'' then 10
      else if find_education text = ''Master'' then 7
      else if find_education text = ''Bachelor'' then 4 else 0)"
  define total where "total = fl (fl (skills_score + years_score) + edu_score)"
  have sc': "score r = py_round1 (min total 100)"
    unfolding sc total_def skills_score_def years_score_def edu_score_def ..
  have "(0::rat) \<le> of_nat (length (matched_skills r)) / of_nat (length (normalised required_skills))"
    by simp
  then have "0 \<le> fl (of_nat (length (matched_skills r))
                    / of_nat (length (normalised required_skills))) * 70"
    using fl_nonneg by simp
  then have s: "0 \<le> skills_score" by (simp add: skills_score_def fl_nonneg)
  have "0 \<le> min yrs 10" using find_years_nonneg [OF yrs] by simp
  then have "(0::rat) \<le> of_int (min yrs 10) / 10" by simp
  then have "0 \<le> fl (of_int (min yrs 10) / 10) * 30" using fl_nonneg by simp
  then have yr: "0 \<le> years_score" by (simp add: years_score_def fl_nonneg)
  have e: "0 \<le> edu_score" by (simp add: edu_score_def)
  have "0 \<le> skills_score + years_score" using s yr by simp
  then have "0 \<le> fl (skills_score + years_score) + edu_score"
    using fl_nonneg e by (simp add: add_nonneg_nonneg)
  then have "0 \<le> total" by (simp add: total_def fl_nonneg)
  then have "0 \<le> min total 100" by simp
  moreover have "min total 100 \<le> 100" by simp
  ultimately show ?thesis using py_round1_bounds sc' by simp
qed

theorem score_in_range_witness:
  "score_resume ''2 years of SQL, Master of Science'' [''sql'', ''rust'']
     = Inr \<lparr>score = 48, matched_skills = [''sql''], years = 2, education = ''Master''\<rparr>
   \<and> (0::rat) \<le> 48 \<and> (48::rat) \<le> 100"
proof -
  have h: "score_resume ''2 years of SQL, Master of Science'' [''sql'', ''rust'']
     = Inr \<lparr>score = 48, matched_skills = [''sql''], years = 2, education = ''Master''\<rparr>"
    by code_simp
  from score_in_range [OF h] h show ?thesis by simp
qed

section \<open>The education level\<close>

text \<open>
  C3. \<^verbatim>\<open>find_education\<close> tries the categories in the order PhD, Master, Bachelor:
  the first category with a marker in the lowercased text is the answer, so a text with
  both the marker \<^verbatim>\<open>phd\<close> and the marker \<^verbatim>\<open>bachelor\<close> gives \<^verbatim>\<open>PhD\<close>; a text with no
  marker of any category gives \<^verbatim>\<open>Not specified\<close>.
\<close>

theorem find_education_priority:
  "find_education text =
     (if has_marker phd_markers text then ''PhD''
      else if has_marker master_markers text then ''Master''
      else if has_marker bachelor_markers text then ''Bachelor''
      else ''Not specified'')
   \<and> (py_in ''phd'' (py_lower text) \<and> py_in ''bachelor'' (py_lower text)
        \<longrightarrow> find_education text = ''PhD'')"
  by (simp add: find_education_def has_marker_def phd_markers_def master_markers_def
      bachelor_markers_def)

theorem find_education_priority_witness:
  "py_in ''phd'' (py_lower ''PhD (2019); Bachelor of Science (2012)'')
   \<and> py_in ''bachelor'' (py_lower ''PhD (2019); Bachelor of Science (2012)'')
   \<and> find_education ''PhD (2019); Bachelor of Science (2012)'' = ''PhD''"
proof -
  have a: "py_in ''phd'' (py_lower ''PhD (2019); Bachelor of Science (2012)'')"
    by code_simp
  have b: "py_in ''bachelor'' (py_lower ''PhD (2019); Bachelor of Science (2012)'')"
    by code_simp
  from find_education_priority [of "''PhD (2019); Bachelor of Science (2012)''"] a b
  show ?thesis by blast
qed

text \<open>
  C9. A text whose lowercase form contains the two letters \<^verbatim>\<open>be\<close> and no marker of PhD
  or Master is a Bachelor; so \<^verbatim>\<open>Not specified\<close> is the answer only for a text without
  any Bachelor marker, the bare \<^verbatim>\<open>be\<close> among them.
\<close>

theorem find_education_be:
  "(py_in ''be'' (py_lower text) \<and> \<not> has_marker phd_markers text
      \<and> \<not> has_marker master_markers text
      \<longrightarrow> find_education text = ''Bachelor'')
   \<and> (find_education text = ''Not specified''
      \<longrightarrow> \<not> py_in ''be'' (py_lower text) \<and> \<not> has_marker bachelor_markers text)"
  by (auto simp: find_education_def has_marker_def phd_markers_def master_markers_def
      bachelor_markers_def Let_def split: if_splits)

theorem find_education_be_witness:
  "py_in ''be'' (py_lower ''Member of the data team'')
   \<and> \<not> has_marker phd_markers ''Member of the data team''
   \<and> \<not> has_marker master_markers ''Member of the data team''
   \<and> find_education ''Member of the data team'' = ''Bachelor''
   \<and> find_education ''Java and Rust'' = ''Not specified''
   \<and> \<not> py_in ''be'' (py_lower ''Java and Rust'')
   \<and> \<not> has_marker bachelor_markers ''Java and Rust''"
proof -
  have a: "py_in ''be'' (py_lower ''Member of the data team'')" by code_simp
  have b: "\<not> has_marker phd_markers ''Member of the data team''" by code_simp
  have c: "\<not> has_marker master_markers ''Member of the data team''" by code_simp
  have d: "find_education ''Java and Rust'' = ''Not specified''" by code_simp
  from find_education_be [of "''Member of the data team''"] a b c
  have 1: "find_education ''Member of the data team'' = ''Bachelor''" by blast
  from find_education_be [of "''Java and Rust''"] d
  have 2: "\<not> py_in ''be'' (py_lower ''Java and Rust'')
           \<and> \<not> has_marker bachelor_markers ''Java and Rust''" by blast
  from a b c d 1 2 show ?thesis by blast
qed

section \<open>The fallback skill list\<close>

lemma derive_skills_length: "length (derive_skills job_description) \<le> 10"
  by (simp add: derive_skills_def)

lemma derive_skills_no_stop: "w \<in> set (derive_skills job_description) \<Longrightarrow> py_lower w \<notin> stop"
  by (auto simp: derive_skills_def dest: in_set_takeD)

lemma derive_skills_order:
  "subseq (derive_skills job_description) (map snd (finditer words_rx job_description))"
proof -
  have "subseq (take 10 xs) xs" for xs :: "string list"
    by (metis append_take_drop_id prefix_imp_subseq prefixI)
  then have "subseq (derive_skills job_description)
      (filter (\<lambda>w. py_lower w \<notin> stop) (map snd (finditer words_rx job_description)))"
    by (simp add: derive_skills_def)
  then show ?thesis by (rule subseq_order.order_trans) simp
qed

text \<open>
  C6, as the specification has it: the skills derived from \<^verbatim>\<open>Looking for a Go
  developer with Docker and AWS experience\<close> are among \<^verbatim>\<open>Looking\<close>, \<^verbatim>\<open>developer\<close>,
  \<^verbatim>\<open>with\<close>, \<^verbatim>\<open>Docker\<close>, \<^verbatim>\<open>and\<close>, \<^verbatim>\<open>AWS\<close>, \<^verbatim>\<open>experience\<close> less the stop words. The word
  \<^verbatim>\<open>Go\<close> has two letters and is no stop word: it is derived and is not in that set.
\<close>

theorem derive_skills_not_in_spec_set:
  "\<not> set (derive_skills ''Looking for a Go developer with Docker and AWS experience'')
       \<subseteq> {''Looking'', ''developer'', ''with'', ''Docker'', ''and'', ''AWS'', ''experience''} - stop"
  by code_simp

text \<open>
  C6, amended: the derived skills are \<^verbatim>\<open>Looking\<close>, \<^verbatim>\<open>Go\<close>, \<^verbatim>\<open>developer\<close>, \<^verbatim>\<open>Docker\<close>,
  \<^verbatim>\<open>AWS\<close>, \<^verbatim>\<open>experience\<close>: they are among the words of the specification's set with
  \<^verbatim>\<open>Go\<close> added, less the stop words, in the order of the job description, and at most
  ten.
\<close>

theorem derive_skills_scenario:
  "derive_skills ''Looking for a Go developer with Docker and AWS experience''
     = [''Looking'', ''Go'', ''developer'', ''Docker'', ''AWS'', ''experience'']
   \<and> set (derive_skills ''Looking for a Go developer with Docker and AWS experience'')
       \<subseteq> {''Looking'', ''Go'', ''developer'', ''with'', ''Docker'', ''and'', ''AWS'',
           ''experience''} - stop
   \<and> subseq (derive_skills ''Looking for a Go developer with Docker and AWS experience'')
        (map snd (finditer words_rx
           ''Looking for a Go developer with Docker and AWS experience''))
   \<and> length (derive_skills ''Looking for a Go developer with Docker and AWS experience'')
        \<le> 10"
  by code_simp


section \<open>The matched skills\<close>

lemma code_point_char_of: "n < 256 \<Longrightarrow> code_point (char_of n) = n"
  by (simp add: code_point_def)

lemma isspace_lower_char: "py_isspace (lower_char c) = py_isspace c"
proof (cases "lower_char c = c")
  case True
  then show ?thesis by simp
next
  case False
  define n where "n = code_point c"
  from False have rng: "(65 \<le> n \<and> n \<le> 90) \<or> (192 \<le> n \<and> n \<le> 222 \<and> n \<noteq> 215)"
    and lc: "lower_char c = char_of (n + 32)"
    by (auto simp: lower_char_def Let_def n_def split: if_splits)
  from rng have "n + 32 < 256" by auto
  then have "code_point (char_of (n + 32)) = n + 32" by (rule code_point_char_of)
  with rng lc have "\<not> py_isspace (lower_char c)" by (auto simp: py_isspace_def Let_def)
  moreover from rng have "\<not> py_isspace c" by (auto simp: py_isspace_def Let_def n_def)
  ultimately show ?thesis by simp
qed

lemma dropWhile_space_lower:
  "dropWhile py_isspace (py_lower s) = py_lower (dropWhile py_isspace s)"
  by (induction s) (simp_all add: py_lower_def isspace_lower_char)

lemma py_strip_lower: "py_strip (py_lower s) = py_lower (py_strip s)"
proof -
  have r: "rev (py_lower t) = py_lower (rev t)" for t by (simp add: py_lower_def rev_map)
  show ?thesis
    by (simp add: py_strip_def dropWhile_space_lower r)
qed

text \<open>
  C10. The matched skills are lowercased, trimmed forms of the supplied skills (a skill
  that is empty after trimming has none), namely those that occur in the lowercased
  text; they stand in the order of the supplied list, and a skill supplied several
  times is matched as often.
\<close>

theorem matched_skills_form:
  "score_resume text required_skills = Inr r \<Longrightarrow>
     matched_skills r = filter (\<lambda>s. py_in s (py_lower text)) (normalised required_skills)
     \<and> subseq (matched_skills r) (normalised required_skills)
     \<and> (\<forall>s. count_list (matched_skills r) s
           = (if py_in s (py_lower text) then count_list (normalised required_skills) s else 0))"
proof -
  assume "score_resume text required_skills = Inr r"
  from score_resume_Inr [OF this]
  have eq: "matched_skills r
     = filter (\<lambda>s. py_in s (py_lower text)) (normalised required_skills)"
    by blast
  have cnt: "count_list (filter P xs) s = (if P s then count_list xs s else 0)"
    for P and xs :: "string list" and s
    by (induction xs) auto
  show ?thesis unfolding eq by (simp add: cnt)
qed

theorem matched_skills_form_witness:
  "score_resume ''2 years of SQL'' ['' SQL'', ''  '', ''Rust'', ''sql '']
     = Inr \<lparr>score = fl (527 / 10), matched_skills = [''sql'', ''sql''], years = 2,
            education = ''Not specified''\<rparr>
   \<and> normalised ['' SQL'', ''  '', ''Rust'', ''sql ''] = [''sql'', ''rust'', ''sql'']
   \<and> [''sql'', ''sql''] = filter (\<lambda>s. py_in s (py_lower ''2 years of SQL''))
         (normalised ['' SQL'', ''  '', ''Rust'', ''sql ''])"
proof -
  have h: "score_resume ''2 years of SQL'' ['' SQL'', ''  '', ''Rust'', ''sql '']
     = Inr \<lparr>score = fl (527 / 10), matched_skills = [''sql'', ''sql''], years = 2,
            education = ''Not specified''\<rparr>"
    by code_simp
  have n: "normalised ['' SQL'', ''  '', ''Rust'', ''sql ''] = [''sql'', ''rust'', ''sql'']"
    by code_simp
  from matched_skills_form [OF h] h n show ?thesis by simp
qed

section \<open>The scenario of the specification\<close>

text \<open>
  C2. For the text \<^verbatim>\<open>5 years of Python and SQL experience, PhD in CS\<close> and the skills
  \<^verbatim>\<open>python\<close>, \<^verbatim>\<open>sql\<close>, \<^verbatim>\<open>aws\<close>, the matched skills are \<^verbatim>\<open>python\<close> and \<^verbatim>\<open>sql\<close>, the years
  are 5, the education is \<^verbatim>\<open>PhD\<close>, and the score is the float \<^verbatim>\<open>71.7\<close>, which is
  \<open>2/3 \<times> 70 + 5/10 \<times> 30 + 10\<close> rounded to one decimal.
\<close>

theorem scenario_score:
  "score_resume ''5 years of Python and SQL experience, PhD in CS''
       [''python'', ''sql'', ''aws'']
     = Inr \<lparr>score = fl (717 / 10), matched_skills = [''python'', ''sql''], years = 5,
            education = ''PhD''\<rparr>
   \<and> py_round1 (2 / 3 * 70 + 5 / 10 * 30 + 10) = fl (717 / 10)
   \<and> \<bar>fl (717 / 10) - 717 / 10\<bar> < 1 / 2 ^ 47"
  by code_simp

section \<open>The submit handler\<close>

text \<open>\<^verbatim>\<open>allowed_file\<close>: the name ends in a dot and \<^verbatim>\<open>pdf\<close> or \<^verbatim>\<open>docx\<close>, in either case.\<close>

lemma rsplit_dot_Some:
  "rsplit_dot s = Some x \<longleftrightarrow> (\<exists>b. s = b @ ''.'' @ x \<and> CHR ''.'' \<notin> set x)"
proof
  assume a: "rsplit_dot s = Some x"
  then have dot: "CHR ''.'' \<in> set s" and x: "x = rev (takeWhile (\<lambda>c. c \<noteq> CHR ''.'') (rev s))"
    by (auto simp: rsplit_dot_def split: if_splits)
  define r where "r = dropWhile (\<lambda>c. c \<noteq> CHR ''.'') (rev s)"
  have "rev s = rev x @ r" by (simp add: x r_def)
  then have s: "s = rev r @ x" by (metis rev_append rev_rev_ident)
  from dot have "r \<noteq> []" by (simp add: r_def)
  then have "hd r = CHR ''.''" using hd_dropWhile [of "\<lambda>c. c \<noteq> CHR ''.''" "rev s"]
    by (simp add: r_def)
  with \<open>r \<noteq> []\<close> obtain r' where "r = CHR ''.'' # r'" by (cases r) auto
  with s have "s = rev r' @ ''.'' @ x" by simp
  moreover have "CHR ''.'' \<notin> set x" unfolding x using set_takeWhileD by fastforce
  ultimately show "\<exists>b. s = b @ ''.'' @ x \<and> CHR ''.'' \<notin> set x" by blast
next
  assume "\<exists>b. s = b @ ''.'' @ x \<and> CHR ''.'' \<notin> set x"
  then obtain b where b: "s = b @ ''.'' @ x" "CHR ''.'' \<notin> set x" by blast
  then have "rev s = rev x @ CHR ''.'' # rev b" by simp
  moreover have "takeWhile (\<lambda>c. c \<noteq> CHR ''.'') (rev x @ ys)
      = rev x @ takeWhile (\<lambda>c. c \<noteq> CHR ''.'') ys" for ys
    by (rule takeWhile_append2) (use b(2) in auto)
  ultimately have "takeWhile (\<lambda>c. c \<noteq> CHR ''.'') (rev s)
      = rev x @ takeWhile (\<lambda>c. c \<noteq> CHR ''.'') (CHR ''.'' # rev b)"
    by simp
  then have "takeWhile (\<lambda>c. c \<noteq> CHR ''.'') (rev s) = rev x" by simp
  with b(1) show "rsplit_dot s = Some x" by (simp add: rsplit_dot_def)
qed

lemma allowed_file_iff:
  "allowed_file filename \<longleftrightarrow>
     (\<exists>b x. filename = b @ ''.'' @ x \<and> CHR ''.'' \<notin> set x
        \<and> (py_lower x = ''pdf'' \<or> py_lower x = ''docx''))"
proof -
  have "allowed_file filename \<longleftrightarrow> (\<exists>x. rsplit_dot filename = Some x \<and> py_lower x \<in> ALLOWED_EXTENSIONS)"
    by (auto simp: allowed_file_def rsplit_dot_def split: option.splits)
  then show ?thesis unfolding rsplit_dot_Some ALLOWED_EXTENSIONS_def by auto
qed

lemma db_insert_rows: "db_insert st c = Inr st' \<Longrightarrow> rows st' = rows st @ [(Suc (last_id st), c)]"
  by (auto simp: db_insert_def split: if_splits)

lemma submit_rejection_iff: "is_rejection (fst (submit e st req)) \<longleftrightarrow> no_valid_upload e st req"
  by (auto simp: submit_def no_valid_upload_def upload_text_def is_rejection_def Let_def
      split: option.splits prod.splits sum.splits)

lemma submit_rejection_rows:
  "is_rejection (fst (submit e st req)) \<Longrightarrow> rows (snd (submit e st req)) = rows st \<and> last_id (snd (submit e st req)) = last_id st"
  by (auto simp: submit_def is_rejection_def Let_def
      split: option.splits prod.splits sum.splits if_splits)

lemma submit_rows_changed:
  "rows (snd (submit e st req)) \<noteq> rows st \<Longrightarrow> \<exists>v. fst (submit e st req) = Rendered v"
  by (auto simp: submit_def is_rejection_def Let_def
      split: option.splits prod.splits sum.splits if_splits)

text \<open>The messages of a rejection, and the record of a submission that is
  accepted: the text was extracted and scored against the requested skills, and the
  record is appended under the next id, with the values shown on the result page.\<close>

lemma submit_rejection_message:
  "fst (submit e st req) = Redirect m \<Longrightarrow>
     m = ''Please attach a resume (PDF or DOCX).''
     \<or> m = ''Unsupported file type. Allowed: pdf, docx''
     \<or> m = ''Could not extract text from the resume. Make sure the file is valid.''"
  by (auto simp: submit_def Let_def split: option.splits prod.splits sum.splits if_splits)

lemma submit_inserts:
  assumes "fst (submit e st req) = Rendered v"
  shows "\<exists>c. rows (snd (submit e st req)) = rows st @ [(Suc (last_id st), c)]
           \<and> col_name c = py_strip (form_name req)
           \<and> col_email c = py_strip (form_email req)
           \<and> col_job_description c = py_strip (form_job_description req)
           \<and> col_filename c = view_filename v
           \<and> col_score c = view_score v
           \<and> col_matches c = py_join '','' (view_matched_skills v)
           \<and> col_years_experience c = view_years v
           \<and> col_education c = view_education v
           \<and> col_created_at c = created e"
  using assms
  by (auto simp: submit_def Let_def db_insert_def
      split: option.splits prod.splits sum.splits if_splits)

lemma submit_scored:
  assumes "fst (submit e st req) = Rendered v"
  shows "\<exists>text res. text \<noteq> [] \<and> score_resume text (requested_skills req) = Inr res
           \<and> view_score v = score res \<and> view_matched_skills v = matched_skills res
           \<and> view_years v = years res \<and> view_education v = education res"
  using assms
  by (auto simp: submit_def Let_def requested_skills_def supplied_skills_def
      split: option.splits prod.splits sum.splits if_splits)

text \<open>
  C5, as the specification has it: the matched skills stored in the record are among
  the skills the caller supplied. A caller who supplies no skill and the job
  description \<^verbatim>\<open>Go developer\<close> gets the record \<^verbatim>\<open>go,developer\<close>: the skills are derived
  from the job description, and matched in their lowercased forms.
\<close>

theorem stored_matches_not_supplied:
  "fst (submit demo_env demo_state fallback_request) = Rendered fallback_view
   \<and> map (col_matches \<circ> snd) (rows (snd (submit demo_env demo_state fallback_request)))
       = [''go,developer'']
   \<and> py_join '','' (view_matched_skills fallback_view) = ''go,developer''
   \<and> supplied_skills fallback_request = []
   \<and> requested_skills fallback_request = [''Go'', ''developer'']
   \<and> \<not> set (view_matched_skills fallback_view) \<subseteq> set (supplied_skills fallback_request)
   \<and> \<not> set (view_matched_skills fallback_view) \<subseteq> set (requested_skills fallback_request)"
  by code_simp

text \<open>
  C5, amended: for every submission that is stored, the \<^verbatim>\<open>matches\<close> of the record are
  the matched skills joined with commas, and every matched skill is the lowercased,
  trimmed form of a requested skill; the requested skills are those the caller
  supplied or, when the caller supplied none, those derived from the job description.
\<close>

theorem stored_matches_requested:
  "fst (submit e st req) = Rendered v \<Longrightarrow>
     (\<exists>c. rows (snd (submit e st req)) = rows st @ [(Suc (last_id st), c)]
          \<and> col_matches c = py_join '','' (view_matched_skills v))
     \<and> set (view_matched_skills v)
          \<subseteq> (\<lambda>s. py_lower (py_strip s)) ` set (requested_skills req)"
proof -
  assume r: "fst (submit e st req) = Rendered v"
  from submit_inserts [OF r] have 1:
    "\<exists>c. rows (snd (submit e st req)) = rows st @ [(Suc (last_id st), c)]
          \<and> col_matches c = py_join '','' (view_matched_skills v)"
    by blast
  from submit_scored [OF r] obtain doc res where
    "score_resume doc (requested_skills req) = Inr res"
    "view_matched_skills v = matched_skills res"
    by blast
  with score_resume_Inr [of doc "requested_skills req" res]
  have "view_matched_skills v
     = filter (\<lambda>s. py_in s (py_lower doc)) (normalised (requested_skills req))"
    by auto
  then have 2: "set (view_matched_skills v)
      \<subseteq> (\<lambda>s. py_lower (py_strip s)) ` set (requested_skills req)"
    by (auto simp: normalised_def)
  from 1 2 show ?thesis by blast
qed

theorem stored_matches_requested_witness:
  "fst (submit demo_env demo_state fallback_request) = Rendered fallback_view
   \<and> (\<exists>c. rows (snd (submit demo_env demo_state fallback_request))
            = rows demo_state @ [(Suc (last_id demo_state), c)]
          \<and> col_matches c = py_join '','' (view_matched_skills fallback_view))
   \<and> set (view_matched_skills fallback_view)
          \<subseteq> (\<lambda>s. py_lower (py_strip s)) ` set (requested_skills fallback_request)"
proof -
  have h: "fst (submit demo_env demo_state fallback_request) = Rendered fallback_view"
    by code_simp
  from stored_matches_requested [OF h] h show ?thesis by blast
qed

text \<open>
  C7. \<^verbatim>\<open>submit\<close> rejects a request, with a message for the user, exactly when no file is
  attached, the extension of the file is not \<^verbatim>\<open>pdf\<close> or \<^verbatim>\<open>docx\<close>, or the extracted text
  is empty. A rejection leaves the table as it was; the table changes only when the
  handler reaches the result page, after extraction and scoring.
\<close>

theorem submit_rejects:
  "(is_rejection (fst (submit e st req)) \<longleftrightarrow> no_valid_upload e st req)
   \<and> (is_rejection (fst (submit e st req)) \<longrightarrow>
        rows (snd (submit e st req)) = rows st \<and> last_id (snd (submit e st req)) = last_id st)
   \<and> (rows (snd (submit e st req)) \<noteq> rows st \<longrightarrow> (\<exists>v. fst (submit e st req) = Rendered v))"
  using submit_rejection_iff submit_rejection_rows submit_rows_changed by blast

theorem submit_rejects_witness:
  "is_rejection (fst (submit demo_env demo_state (demo_request ''cv.txt'' ''5 years of Python'')))
   \<and> rows (snd (submit demo_env demo_state (demo_request ''cv.txt'' ''5 years of Python''))) = []
   \<and> rows (snd (submit demo_env demo_state (demo_request ''cv.pdf'' ''5 years of Python''))) \<noteq> []
   \<and> (\<exists>v. fst (submit demo_env demo_state (demo_request ''cv.pdf'' ''5 years of Python''))
          = Rendered v)"
proof -
  have a: "no_valid_upload demo_env demo_state (demo_request ''cv.txt'' ''5 years of Python'')"
    by code_simp
  have b: "rows (snd (submit demo_env demo_state (demo_request ''cv.pdf'' ''5 years of Python'')))
             \<noteq> rows demo_state"
    by code_simp
  have c: "rows demo_state = []" by (simp add: demo_state_def)
  from submit_rejects [of demo_env demo_state "demo_request ''cv.txt'' ''5 years of Python''"] a
  have 1: "is_rejection (fst (submit demo_env demo_state
             (demo_request ''cv.txt'' ''5 years of Python'')))"
    and 2: "rows (snd (submit demo_env demo_state
             (demo_request ''cv.txt'' ''5 years of Python''))) = rows demo_state"
    by blast+
  from submit_rejects [of demo_env demo_state "demo_request ''cv.pdf'' ''5 years of Python''"] b
  have 3: "\<exists>v. fst (submit demo_env demo_state (demo_request ''cv.pdf'' ''5 years of Python''))
             = Rendered v"
    by blast
  from 1 2 3 b c show ?thesis by simp
qed

section \<open>The table and its listing\<close>

lemma admin_all: "mset (admin st) = mset (rows st)"
  by (simp add: admin_def)

lemma admin_sorted:
  "sorted_wrt (\<lambda>a b. col_created_at (snd b) \<le> col_created_at (snd a)) (admin st)"
proof -
  have "sorted (map (\<lambda>r. col_created_at (snd r))
          (sort_key (\<lambda>r. col_created_at (snd r)) (rev (rows st))))"
    by (rule sorted_sort_key)
  then have "sorted_wrt (\<lambda>a b. col_created_at (snd a) \<le> col_created_at (snd b))
          (sort_key (\<lambda>r. col_created_at (snd r)) (rev (rows st)))"
    by (simp add: sorted_wrt_map)
  then show ?thesis
    by (simp add: admin_def sorted_wrt_rev)
qed

text \<open>Rows with the same \<^verbatim>\<open>created_at\<close> are listed in the order of the table.\<close>

lemma admin_ties:
  "filter (\<lambda>r. col_created_at (snd r) = k) (admin st)
     = filter (\<lambda>r. col_created_at (snd r) = k) (rows st)"
proof -
  have "filter (\<lambda>r. col_created_at (snd r) = k) (admin st)
      = rev (filter (\<lambda>r. col_created_at (snd r) = k)
          (sort_key (\<lambda>r. col_created_at (snd r)) (rev (rows st))))"
    by (simp add: admin_def rev_filter)
  also have "\<dots> = rev (filter (\<lambda>r. col_created_at (snd r) = k) (rev (rows st)))"
    by (simp only: sort_key_stable)
  also have "\<dots> = filter (\<lambda>r. col_created_at (snd r) = k) (rows st)"
    by (simp add: rev_filter)
  finally show ?thesis .
qed

text \<open>
  C8. A record that is inserted is in the listing with the columns it was inserted
  with, under the id the table gave it; the listing has all the records of the table,
  each as often as the table, ordered by \<^verbatim>\<open>created_at\<close>, the latest first.
\<close>

theorem insert_then_listed:
  "db_insert st c = Inr st' \<Longrightarrow>
     (Suc (last_id st), c) \<in> set (admin st')
     \<and> mset (admin st') = mset (rows st) + {#(Suc (last_id st), c)#}
     \<and> sorted_wrt (\<lambda>a b. col_created_at (snd b) \<le> col_created_at (snd a)) (admin st')"
proof -
  assume ins: "db_insert st c = Inr st'"
  then have r: "rows st' = rows st @ [(Suc (last_id st), c)]" by (rule db_insert_rows)
  have m: "mset (admin st') = mset (rows st) + {#(Suc (last_id st), c)#}"
    by (simp add: admin_all r)
  then have "(Suc (last_id st), c) \<in># mset (admin st')" by simp
  then have "(Suc (last_id st), c) \<in> set (admin st')" by simp
  with m admin_sorted show ?thesis by blast
qed

theorem insert_then_listed_witness:
  "db_insert demo_state demo_columns
     = Inr (demo_state\<lparr>rows := [(1, demo_columns)], last_id := 1\<rparr>)
   \<and> (1, demo_columns) \<in> set (admin (demo_state\<lparr>rows := [(1, demo_columns)], last_id := 1\<rparr>))
   \<and> mset (admin (demo_state\<lparr>rows := [(1, demo_columns)], last_id := 1\<rparr>))
       = {#(1, demo_columns)#}"
proof -
  have h: "db_insert demo_state demo_columns
     = Inr (demo_state\<lparr>rows := [(1, demo_columns)], last_id := 1\<rparr>)"
    by (simp add: db_insert_def demo_state_def demo_columns_def)
  from insert_then_listed [OF h] h show ?thesis by (simp add: demo_state_def)
qed

section \<open>The matcher on the pattern of the years\<close>

lemma ms_Atom_iff:
  "x \<in> set (ms (Atom p) st) \<longleftrightarrow> (\<exists>a. snd st = a # snd x \<and> p a \<and> fst x = fst st)"
  by (cases st; cases x) (auto simp: ms.simps(1) split: list.splits)

lemma ms_Seq_iff: "x \<in> set (ms (Seq a b) st) \<longleftrightarrow> (\<exists>y \<in> set (ms a st). x \<in> set (ms b y))"
  by (auto simp: ms.simps(2))

lemma ms_Alt_iff: "x \<in> set (ms (Alt a b) st) \<longleftrightarrow> x \<in> set (ms a st) \<or> x \<in> set (ms b st)"
  by (simp add: ms.simps(3))

lemma ms_Star_Atom_Nil: "ms (Star (Atom p)) (c, []) = [(c, [])]"
  by (simp add: ms.simps(4) [of "Atom p" "(c, [])"] ms.simps(1))

lemma ms_Star_Atom_Cons:
  "ms (Star (Atom p)) (c, a # s) = (if p a then ms (Star (Atom p)) (c, s) @ [(c, a # s)] else [(c, a # s)])"
  by (simp add: ms.simps(4) [of "Atom p" "(c, a # s)"] ms.simps(1))

lemma ms_Star_Atom_iff:
  "x \<in> set (ms (Star (Atom p)) (c, s)) \<longleftrightarrow> (\<exists>w. s = w @ snd x \<and> list_all p w \<and> fst x = c)"
proof (induction s)
  case Nil
  show ?case by (cases x) (auto simp: ms_Star_Atom_Nil)
next
  case (Cons a s)
  show ?case
  proof
    assume "x \<in> set (ms (Star (Atom p)) (c, a # s))"
    then consider "p a" "x \<in> set (ms (Star (Atom p)) (c, s))" | "x = (c, a # s)"
      by (auto simp: ms_Star_Atom_Cons split: if_splits)
    then show "\<exists>w. a # s = w @ snd x \<and> list_all p w \<and> fst x = c"
    proof cases
      case 1
      with Cons.IH obtain w where "s = w @ snd x" "list_all p w" "fst x = c" by blast
      with 1(1) have "a # s = (a # w) @ snd x \<and> list_all p (a # w) \<and> fst x = c" by simp
      then show ?thesis by blast
    next
      case 2
      then have "a # s = [] @ snd x \<and> list_all p [] \<and> fst x = c" by simp
      then show ?thesis by blast
    qed
  next
    assume "\<exists>w. a # s = w @ snd x \<and> list_all p w \<and> fst x = c"
    then obtain w where w: "a # s = w @ snd x" "list_all p w" "fst x = c" by blast
    show "x \<in> set (ms (Star (Atom p)) (c, a # s))"
    proof (cases w)
      case Nil
      with w have "x = (c, a # s)" by (cases x) simp
      then show ?thesis by (simp add: ms_Star_Atom_Cons)
    next
      case (Cons b w')
      with w have "p a" "s = w' @ snd x" "list_all p w'" by simp_all
      with Cons.IH w(3) have "x \<in> set (ms (Star (Atom p)) (c, s))" by blast
      with \<open>p a\<close> show ?thesis by (simp add: ms_Star_Atom_Cons)
    qed
  qed
qed

lemma ms_plus_Atom_iff:
  "x \<in> set (ms (rx_plus (Atom p)) (c, s))
     \<longleftrightarrow> (\<exists>w. w \<noteq> [] \<and> s = w @ snd x \<and> list_all p w \<and> fst x = c)"
proof
  assume "x \<in> set (ms (rx_plus (Atom p)) (c, s))"
  then obtain y where y: "y \<in> set (ms (Atom p) (c, s))" "x \<in> set (ms (Star (Atom p)) y)"
    unfolding rx_plus_def ms_Seq_iff by blast
  from y(1) obtain a where a: "s = a # snd y" "p a" "fst y = c"
    unfolding ms_Atom_iff by auto
  from y(2) a(3) have "x \<in> set (ms (Star (Atom p)) (c, snd y))" by (cases y) simp
  then obtain w where w: "snd y = w @ snd x" "list_all p w" "fst x = c"
    unfolding ms_Star_Atom_iff by blast
  with a have "a # w \<noteq> [] \<and> s = (a # w) @ snd x \<and> list_all p (a # w) \<and> fst x = c" by simp
  then show "\<exists>w. w \<noteq> [] \<and> s = w @ snd x \<and> list_all p w \<and> fst x = c" by blast
next
  assume "\<exists>w. w \<noteq> [] \<and> s = w @ snd x \<and> list_all p w \<and> fst x = c"
  then obtain a w where w: "s = (a # w) @ snd x" "list_all p (a # w)" "fst x = c"
    by (metis neq_Nil_conv)
  then have 1: "(c, w @ snd x) \<in> set (ms (Atom p) (c, s))"
    unfolding ms_Atom_iff by simp
  from w have 2: "x \<in> set (ms (Star (Atom p)) (c, w @ snd x))"
    unfolding ms_Star_Atom_iff by auto
  from 1 2 show "x \<in> set (ms (rx_plus (Atom p)) (c, s))"
    unfolding rx_plus_def ms_Seq_iff by blast
qed

lemma ms_Grp_iff:
  "x \<in> set (ms (Grp i a) st) \<longleftrightarrow>
     (\<exists>y \<in> set (ms a st).
        x = ((i, take (length (snd st) - length (snd y)) (snd st)) # fst y, snd y))"
  by (auto simp: ms.simps(5))

lemma ms_Grp_digits_iff:
  "x \<in> set (ms (Grp i digits_rx) (c, s))
     \<longleftrightarrow> (\<exists>d. all_digits d \<and> s = d @ snd x \<and> fst x = (i, d) # c)"
proof
  assume "x \<in> set (ms (Grp i digits_rx) (c, s))"
  then obtain y where y: "y \<in> set (ms digits_rx (c, s))"
    "x = ((i, take (length s - length (snd y)) s) # fst y, snd y)"
    unfolding ms_Grp_iff by auto
  from y(1) obtain w where w: "w \<noteq> []" "s = w @ snd y" "list_all is_digit w" "fst y = c"
    unfolding digits_rx_def ms_plus_Atom_iff by blast
  from w(2) have "take (length s - length (snd y)) s = w" by simp
  with y(2) w have "all_digits w \<and> s = w @ snd x \<and> fst x = (i, w) # c"
    by (simp add: all_digits_def)
  then show "\<exists>d. all_digits d \<and> s = d @ snd x \<and> fst x = (i, d) # c" by blast
next
  assume "\<exists>d. all_digits d \<and> s = d @ snd x \<and> fst x = (i, d) # c"
  then obtain d where d: "all_digits d" "s = d @ snd x" "fst x = (i, d) # c" by blast
  then have 1: "(c, snd x) \<in> set (ms digits_rx (c, s))"
    unfolding digits_rx_def ms_plus_Atom_iff by (auto simp: all_digits_def)
  from d(2) have "take (length s - length (snd x)) s = d" by simp
  with d(3) have "x = ((i, take (length (snd (c, s)) - length (snd (c, snd x))) (snd (c, s))) # fst (c, snd x), snd (c, snd x))"
    by (cases x) simp
  with 1 show "x \<in> set (ms (Grp i digits_rx) (c, s))"
    unfolding ms_Grp_iff by blast
qed

lemma lower_char_fix:
  "lower_char CHR ''y'' = CHR ''y''" "lower_char CHR ''e'' = CHR ''e''"
  "lower_char CHR ''a'' = CHR ''a''" "lower_char CHR ''r'' = CHR ''r''"
  "lower_char CHR ''s'' = CHR ''s''" "lower_char CHR ''+'' = CHR ''+''"
  "lower_char CHR ''-'' = CHR ''-''"
  by code_simp+

lemma lower_char_range:
  "lower_char c = c \<or> (97 \<le> code_point (lower_char c) \<and> code_point (lower_char c) \<le> 122)
     \<or> (224 \<le> code_point (lower_char c) \<and> code_point (lower_char c) \<le> 254)"
proof (cases "lower_char c = c")
  case True
  then show ?thesis by simp
next
  case False
  define n where "n = code_point c"
  from False have rng: "(65 \<le> n \<and> n \<le> 90) \<or> (192 \<le> n \<and> n \<le> 222 \<and> n \<noteq> 215)"
    and lc: "lower_char c = char_of (n + 32)"
    by (auto simp: lower_char_def Let_def n_def split: if_splits)
  from rng have "n + 32 < 256" by auto
  then have "code_point (char_of (n + 32)) = n + 32" by (simp add: code_point_def)
  with rng lc show ?thesis by auto
qed

lemma lower_char_plus_iff: "lower_char x = CHR ''+'' \<longleftrightarrow> x = CHR ''+''"
proof
  assume a: "lower_char x = CHR ''+''"
  have "code_point CHR ''+'' = 43" by code_simp
  with lower_char_range [of x] a show "x = CHR ''+''" by auto
qed (simp add: lower_char_fix)

lemma lower_char_dash_iff: "lower_char x = CHR ''-'' \<longleftrightarrow> x = CHR ''-''"
proof
  assume a: "lower_char x = CHR ''-''"
  have "code_point CHR ''-'' = 45" by code_simp
  with lower_char_range [of x] a show "x = CHR ''-''" by auto
qed (simp add: lower_char_fix)

lemma ms_ilit_iff:
  "x \<in> set (ms (ilit k) (c, s)) \<longleftrightarrow> (\<exists>a. s = a # snd x \<and> lower_char a = lower_char k \<and> fst x = c)"
  by (simp add: ilit_def ms_Atom_iff)

lemma ms_Seq_pair_iff:
  "x \<in> set (ms (Seq a b) st) \<longleftrightarrow> (\<exists>c1 r1. (c1, r1) \<in> set (ms a st) \<and> x \<in> set (ms b (c1, r1)))"
  by (auto simp: ms.simps(2))

lemma ms_year_rx_iff:
  "x \<in> set (ms year_rx (c, s)) \<longleftrightarrow> (\<exists>y. s = y @ snd x \<and> py_lower y = ''year'' \<and> fst x = c)"
proof
  assume "x \<in> set (ms year_rx (c, s))"
  then obtain a1 a2 a3 a4 where "s = a1 # a2 # a3 # a4 # snd x" "fst x = c"
    "lower_char a1 = CHR ''y''" "lower_char a2 = CHR ''e''" "lower_char a3 = CHR ''a''" "lower_char a4 = CHR ''r''"
    unfolding year_rx_def ms_Seq_pair_iff ms_ilit_iff by (auto simp: lower_char_fix)
  then have "s = [a1, a2, a3, a4] @ snd x \<and> py_lower [a1, a2, a3, a4] = ''year'' \<and> fst x = c"
    by (simp add: py_lower_def)
  then show "\<exists>y. s = y @ snd x \<and> py_lower y = ''year'' \<and> fst x = c" by blast
next
  assume "\<exists>y. s = y @ snd x \<and> py_lower y = ''year'' \<and> fst x = c"
  then obtain y where y: "s = y @ snd x" "py_lower y = ''year''" "fst x = c" by blast
  from y(2) obtain a1 a2 a3 a4 where "y = [a1, a2, a3, a4]"
    "lower_char a1 = CHR ''y''" "lower_char a2 = CHR ''e''" "lower_char a3 = CHR ''a''" "lower_char a4 = CHR ''r''"
    by (auto simp: py_lower_def map_eq_Cons_conv)
  with y(1,3) show "x \<in> set (ms year_rx (c, s))"
    unfolding year_rx_def ms_Seq_pair_iff ms_ilit_iff by (cases x) (simp add: lower_char_fix)
qed

lemma ms_years_word_rx_iff:
  "x \<in> set (ms years_word_rx (c, s)) \<longleftrightarrow> (\<exists>y. s = y @ snd x \<and> py_lower y = ''years'' \<and> fst x = c)"
proof
  assume "x \<in> set (ms years_word_rx (c, s))"
  then obtain y a where "s = y @ a # snd x" "py_lower y = ''year''" "lower_char a = CHR ''s''" "fst x = c"
    unfolding years_word_rx_def ms_Seq_pair_iff ms_ilit_iff ms_year_rx_iff by (auto simp: lower_char_fix)
  then have "s = (y @ [a]) @ snd x \<and> py_lower (y @ [a]) = ''years'' \<and> fst x = c"
    by (simp add: py_lower_def)
  then show "\<exists>y. s = y @ snd x \<and> py_lower y = ''years'' \<and> fst x = c" by blast
next
  assume "\<exists>y. s = y @ snd x \<and> py_lower y = ''years'' \<and> fst x = c"
  then obtain y where y: "s = y @ snd x" "py_lower y = ''years''" "fst x = c" by blast
  from y(2) obtain a1 a2 a3 a4 a5 where "y = [a1, a2, a3, a4] @ [a5]"
    "py_lower [a1, a2, a3, a4] = ''year''" "lower_char a5 = CHR ''s''"
    by (auto simp: py_lower_def map_eq_Cons_conv)
  with y(1,3) have "(c, a5 # snd x) \<in> set (ms year_rx (c, s))" "x \<in> set (ms (ilit CHR ''s'') (c, a5 # snd x))"
    unfolding ms_year_rx_iff ms_ilit_iff by (auto simp: lower_char_fix)
  then show "x \<in> set (ms years_word_rx (c, s))"
    unfolding years_word_rx_def ms_Seq_pair_iff by blast
qed

lemma ms_spaces_rx_iff:
  "x \<in> set (ms spaces_rx (c, s)) \<longleftrightarrow> (\<exists>w. s = w @ snd x \<and> list_all py_isspace w \<and> fst x = c)"
  by (simp add: spaces_rx_def ms_Star_Atom_iff)

lemma ms_alt1_iff:
  "x \<in> set (ms (Seq (Grp 1 digits_rx)
            (Seq spaces_rx (Seq (ilit CHR ''+'') (Seq spaces_rx years_word_rx)))) ([], s))
   \<longleftrightarrow> (\<exists>d m. all_digits d \<and> form_plus d m \<and> s = m @ snd x \<and> fst x = [(1, d)])"
  (is "?L \<longleftrightarrow> ?R")
proof
  assume ?L
  then obtain d ws a ws' y r1 r2 r3 r4 where
    "all_digits d" "s = d @ r1" "r1 = ws @ r2" "list_all py_isspace ws"
    "r2 = a # r3" "lower_char a = CHR ''+''" "r3 = ws' @ r4" "list_all py_isspace ws'"
    "r4 = y @ snd x" "py_lower y = ''years''" "fst x = [(1, d)]"
    unfolding ms_Seq_pair_iff ms_Grp_digits_iff ms_spaces_rx_iff ms_ilit_iff ms_years_word_rx_iff
    by (auto simp: lower_char_fix)
  then have "all_digits d \<and> form_plus d (d @ ws @ ''+'' @ ws' @ y)
     \<and> s = (d @ ws @ ''+'' @ ws' @ y) @ snd x \<and> fst x = [(1, d)]"
    unfolding form_plus_def by (auto simp: lower_char_plus_iff)
  then show ?R by blast
next
  assume ?R
  then obtain d ws ws' y where *: "all_digits d" "list_all py_isspace ws" "list_all py_isspace ws'"
    "py_lower y = ''years''" "s = d @ ws @ ''+'' @ ws' @ y @ snd x" "fst x = [(1, d)]"
    unfolding form_plus_def by auto
  have 1: "([(1, d)], ws @ ''+'' @ ws' @ y @ snd x) \<in> set (ms (Grp 1 digits_rx) ([], s))"
    unfolding ms_Grp_digits_iff using * by simp
  have 2: "([(1, d)], ''+'' @ ws' @ y @ snd x) \<in> set (ms spaces_rx ([(1, d)], ws @ ''+'' @ ws' @ y @ snd x))"
    unfolding ms_spaces_rx_iff using * by simp
  have 3: "([(1, d)], ws' @ y @ snd x) \<in> set (ms (ilit CHR ''+'') ([(1, d)], ''+'' @ ws' @ y @ snd x))"
    unfolding ms_ilit_iff by simp
  have 4: "([(1, d)], y @ snd x) \<in> set (ms spaces_rx ([(1, d)], ws' @ y @ snd x))"
    unfolding ms_spaces_rx_iff using * by simp
  have 5: "x \<in> set (ms years_word_rx ([(1, d)], y @ snd x))"
    unfolding ms_years_word_rx_iff using * by simp
  show ?L unfolding ms_Seq_pair_iff using 1 2 3 4 5 by blast
qed

lemma ms_alt2_iff:
  "x \<in> set (ms (Seq (Grp 2 digits_rx) (Seq (rx_plus (Atom py_isspace)) years_word_rx)) ([], s))
   \<longleftrightarrow> (\<exists>d m. all_digits d \<and> form_space d m \<and> s = m @ snd x \<and> fst x = [(2, d)])"
  (is "?L \<longleftrightarrow> ?R")
proof
  assume ?L
  then obtain d ws y r1 r2 where
    "all_digits d" "s = d @ r1" "r1 = ws @ r2" "ws \<noteq> []" "list_all py_isspace ws"
    "r2 = y @ snd x" "py_lower y = ''years''" "fst x = [(2, d)]"
    unfolding ms_Seq_pair_iff ms_Grp_digits_iff ms_plus_Atom_iff ms_years_word_rx_iff
    by auto
  then have "all_digits d \<and> form_space d (d @ ws @ y)
     \<and> s = (d @ ws @ y) @ snd x \<and> fst x = [(2, d)]"
    unfolding form_space_def by auto
  then show ?R by blast
next
  assume ?R
  then obtain d ws y where *: "all_digits d" "ws \<noteq> []" "list_all py_isspace ws"
    "py_lower y = ''years''" "s = d @ ws @ y @ snd x" "fst x = [(2, d)]"
    unfolding form_space_def by auto
  have 1: "([(2, d)], ws @ y @ snd x) \<in> set (ms (Grp 2 digits_rx) ([], s))"
    unfolding ms_Grp_digits_iff using * by simp
  have 2: "([(2, d)], y @ snd x) \<in> set (ms (rx_plus (Atom py_isspace)) ([(2, d)], ws @ y @ snd x))"
    unfolding ms_plus_Atom_iff using * by simp
  have 3: "x \<in> set (ms years_word_rx ([(2, d)], y @ snd x))"
    unfolding ms_years_word_rx_iff using * by simp
  show ?L unfolding ms_Seq_pair_iff using 1 2 3 by blast
qed

lemma ms_alt3_iff:
  "x \<in> set (ms (Seq (Grp 3 digits_rx) (Seq (ilit CHR ''-'') year_rx)) ([], s))
   \<longleftrightarrow> (\<exists>d m. all_digits d \<and> form_dash d m \<and> s = m @ snd x \<and> fst x = [(3, d)])"
  (is "?L \<longleftrightarrow> ?R")
proof
  assume ?L
  then obtain d a y r1 r2 where
    "all_digits d" "s = d @ r1" "r1 = a # r2" "lower_char a = CHR ''-''"
    "r2 = y @ snd x" "py_lower y = ''year''" "fst x = [(3, d)]"
    unfolding ms_Seq_pair_iff ms_Grp_digits_iff ms_ilit_iff ms_year_rx_iff
    by (auto simp: lower_char_fix)
  then have "all_digits d \<and> form_dash d (d @ ''-'' @ y)
     \<and> s = (d @ ''-'' @ y) @ snd x \<and> fst x = [(3, d)]"
    unfolding form_dash_def by (auto simp: lower_char_dash_iff)
  then show ?R by blast
next
  assume ?R
  then obtain d y where *: "all_digits d" "py_lower y = ''year''" "s = d @ ''-'' @ y @ snd x"
    "fst x = [(3, d)]"
    unfolding form_dash_def by auto
  have 1: "([(3, d)], ''-'' @ y @ snd x) \<in> set (ms (Grp 3 digits_rx) ([], s))"
    unfolding ms_Grp_digits_iff using * by simp
  have 2: "([(3, d)], y @ snd x) \<in> set (ms (ilit CHR ''-'') ([(3, d)], ''-'' @ y @ snd x))"
    unfolding ms_ilit_iff by simp
  have 3: "x \<in> set (ms year_rx ([(3, d)], y @ snd x))"
    unfolding ms_year_rx_iff using * by simp
  show ?L unfolding ms_Seq_pair_iff using 1 2 3 by blast
qed

lemma ms_years_rx_iff:
  "x \<in> set (ms years_rx ([], s)) \<longleftrightarrow>
     (\<exists>d m. all_digits d \<and> s = m @ snd x \<and>
        (form_plus d m \<and> fst x = [(1, d)] \<or> form_space d m \<and> fst x = [(2, d)]
         \<or> form_dash d m \<and> fst x = [(3, d)]))"
  unfolding years_rx_def ms_Alt_iff ms_alt1_iff ms_alt2_iff ms_alt3_iff by blast

lemma find_years_toks:
  "find_years_of_experience text =
     (case collect py_int (toks_of (finditer years_rx text)) of
        Inl e \<Rightarrow> Inl e
      | Inr nums \<Rightarrow> Inr (max_or_0 nums))"
  by (simp add: find_years_of_experience_def toks_of_def tok_strs_def max_or_0_def Let_def
      comp_def split_def del: filter.simps split: sum.splits)

lemma is_digit_isdigit: "is_digit c \<Longrightarrow> py_isdigit_char c"
  by (simp add: is_digit_def py_isdigit_char_def Let_def)

lemma all_digits_isdigit: "all_digits d \<Longrightarrow> py_isdigit d"
  by (auto simp: all_digits_def py_isdigit_def list_all_iff is_digit_isdigit)

lemma tok_strs_single:
  "all_digits d \<Longrightarrow> i = 1 \<or> i = 2 \<or> i = 3 \<Longrightarrow> tok_strs [(i, d)] = [d]"
  by (auto simp: tok_strs_def match_group_def all_digits_isdigit all_digits_def)

lemma space_not_digit: "py_isspace c \<Longrightarrow> \<not> is_digit c"
  by (auto simp: py_isspace_def is_digit_def Let_def)

lemma digit_lower_char: "is_digit c \<Longrightarrow> lower_char c = c"
  by (auto simp: is_digit_def lower_char_def Let_def)

lemma no_digit_lower: "list_all (\<lambda>c. \<not> is_digit c) (py_lower y) \<Longrightarrow> list_all (\<lambda>c. \<not> is_digit c) y"
  by (induction y) (auto simp: py_lower_def digit_lower_char)

lemma word_no_digit:
  "py_lower y = ''years'' \<or> py_lower y = ''year'' \<Longrightarrow> list_all (\<lambda>c. \<not> is_digit c) y"
proof -
  assume a: "py_lower y = ''years'' \<or> py_lower y = ''year''"
  have "list_all (\<lambda>c. \<not> is_digit c) ''years''" "list_all (\<lambda>c. \<not> is_digit c) ''year''"
    by code_simp+
  with a have "list_all (\<lambda>c. \<not> is_digit c) (py_lower y)" by auto
  then show ?thesis by (rule no_digit_lower)
qed

lemma year_match_shape:
  assumes "year_match d m"
  shows "\<exists>sfx. m = d @ sfx \<and> sfx \<noteq> [] \<and> list_all (\<lambda>c. \<not> is_digit c) sfx"
proof -
  have pm: "\<not> is_digit CHR ''+''" "\<not> is_digit CHR ''-''" by code_simp+
  from assms consider "form_plus d m" | "form_space d m" | "form_dash d m"
    by (auto simp: year_match_def)
  then show ?thesis
  proof cases
    case 1
    then obtain ws ws' y where "list_all py_isspace ws" "list_all py_isspace ws'"
      "py_lower y = ''years''" "m = d @ ws @ ''+'' @ ws' @ y"
      unfolding form_plus_def by blast
    then have "m = d @ (ws @ ''+'' @ ws' @ y) \<and> ws @ ''+'' @ ws' @ y \<noteq> []
       \<and> list_all (\<lambda>c. \<not> is_digit c) (ws @ ''+'' @ ws' @ y)"
      using word_no_digit [of y] pm by (auto simp: list_all_iff space_not_digit)
    then show ?thesis by blast
  next
    case 2
    then obtain ws y where "ws \<noteq> []" "list_all py_isspace ws"
      "py_lower y = ''years''" "m = d @ ws @ y"
      unfolding form_space_def by blast
    then have "m = d @ (ws @ y) \<and> ws @ y \<noteq> [] \<and> list_all (\<lambda>c. \<not> is_digit c) (ws @ y)"
      using word_no_digit [of y] by (auto simp: list_all_iff space_not_digit)
    then show ?thesis by blast
  next
    case 3
    then obtain y where "py_lower y = ''year''" "m = d @ ''-'' @ y"
      unfolding form_dash_def by blast
    then have "m = d @ (''-'' @ y) \<and> ''-'' @ y \<noteq> [] \<and> list_all (\<lambda>c. \<not> is_digit c) (''-'' @ y)"
      using word_no_digit [of y] pm by (auto simp: list_all_iff)
    then show ?thesis by blast
  qed
qed

lemma takeWhile_digits:
  assumes "list_all is_digit d" "sfx \<noteq> []" "list_all (\<lambda>c. \<not> is_digit c) sfx"
  shows "takeWhile is_digit (d @ sfx @ rest) = d"
proof -
  from assms(2,3) obtain x xs where "sfx = x # xs" "\<not> is_digit x" by (cases sfx) auto
  with assms(1) show ?thesis by (simp add: takeWhile_append2 list_all_iff)
qed

lemma decimal_value_acc:
  "foldl (\<lambda>n c. 10 * n + digit_val c) n b
     = n * 10 ^ length b + foldl (\<lambda>n c. 10 * n + digit_val c) 0 b"
proof (induction b arbitrary: n)
  case Nil
  then show ?case by simp
next
  case (Cons x xs)
  have "foldl (\<lambda>n c. 10 * n + digit_val c) n (x # xs)
          = foldl (\<lambda>n c. 10 * n + digit_val c) (10 * n + digit_val x) xs" by simp
  also have "\<dots> = (10 * n + digit_val x) * 10 ^ length xs
          + foldl (\<lambda>n c. 10 * n + digit_val c) 0 xs"
    by (rule Cons.IH)
  also have "\<dots> = n * 10 ^ length (x # xs)
          + (digit_val x * 10 ^ length xs + foldl (\<lambda>n c. 10 * n + digit_val c) 0 xs)"
    by (simp add: algebra_simps)
  also have "digit_val x * 10 ^ length xs + foldl (\<lambda>n c. 10 * n + digit_val c) 0 xs
          = foldl (\<lambda>n c. 10 * n + digit_val c) (digit_val x) xs"
    by (rule Cons.IH [symmetric])
  also have "\<dots> = foldl (\<lambda>n c. 10 * n + digit_val c) 0 (x # xs)" by simp
  finally show ?case .
qed

lemma decimal_value_append: "decimal_value (a @ b) = decimal_value a * 10 ^ length b + decimal_value b"
  unfolding decimal_value_def foldl_append by (rule decimal_value_acc)

lemma decimal_value_suffix_le:
  assumes "list_all is_digit a"
  shows "decimal_value b \<le> decimal_value (a @ b)"
proof -
  have "0 \<le> decimal_value a"
  proof (cases "a = []")
    case True
    then show ?thesis by (simp add: decimal_value_def)
  next
    case False
    with assms have "py_isdigit a"
      by (auto simp: py_isdigit_def list_all_iff is_digit_isdigit)
    then show ?thesis by (rule decimal_value_nonneg)
  qed
  then have "0 \<le> decimal_value a * 10 ^ length b" by simp
  then show ?thesis by (simp add: decimal_value_append)
qed

lemma finditer_none:
  "ms r ([], s) = [] \<Longrightarrow> finditer r s = (case s of [] \<Rightarrow> [] | x # xs \<Rightarrow> finditer r xs)"
  by (simp add: finditer.simps [of r s])

lemma finditer_some:
  "ms r ([], s) = (caps, rest) # others \<Longrightarrow> length rest < length s \<Longrightarrow>
     finditer r s = (caps, take (length s - length rest) s) # finditer r rest"
  by (simp add: finditer.simps [of r s])

text \<open>The first match at a position: its number is the longest run of digits there.\<close>

lemma first_match:
  assumes "ms years_rx ([], s) = (caps, rest) # others"
  shows "\<exists>t sfx. all_digits t \<and> sfx \<noteq> [] \<and> list_all (\<lambda>c. \<not> is_digit c) sfx
            \<and> s = t @ sfx @ rest \<and> year_match t (t @ sfx) \<and> tok_strs caps = [t]"
proof -
  from assms have "(caps, rest) \<in> set (ms years_rx ([], s))" by simp
  then obtain d m where dm: "all_digits d" "s = m @ rest"
    "form_plus d m \<and> caps = [(1, d)] \<or> form_space d m \<and> caps = [(2, d)]
         \<or> form_dash d m \<and> caps = [(3, d)]"
    unfolding ms_years_rx_iff by auto
  then have ym: "year_match d m" by (auto simp: year_match_def)
  from year_match_shape [OF ym] obtain sfx where
    sfx: "m = d @ sfx" "sfx \<noteq> []" "list_all (\<lambda>c. \<not> is_digit c) sfx" by blast
  from dm have "tok_strs caps = [d]" by (auto simp: tok_strs_single)
  with dm sfx ym show ?thesis by auto
qed

lemma match_exists:
  assumes "year_match d m"
  shows "ms years_rx ([], m @ post) \<noteq> []"
proof -
  from assms have "\<exists>i. ([(i, d)], post) \<in> set (ms years_rx ([], m @ post))"
    unfolding ms_years_rx_iff year_match_def by auto
  then show ?thesis by auto
qed

lemma toks_of_Cons: "toks_of ((caps, m) # items) = tok_strs caps @ toks_of items"
  by (simp add: toks_of_def)

lemma toks_of_Nil: "toks_of [] = []"
  by (simp add: toks_of_def)

text \<open>Every token the scan reports is the number of a match in the text.\<close>

lemma scan_sound:
  "t \<in> set (toks_of (finditer years_rx s)) \<Longrightarrow> occurs s t"
proof (induction "length s" arbitrary: s rule: less_induct)
  case less
  show ?case
  proof (cases "ms years_rx ([], s)")
    case Nil
    show ?thesis
    proof (cases s)
      case Nil
      with \<open>ms years_rx ([], s) = []\<close> less.prems show ?thesis
        by (simp add: finditer_none toks_of_Nil)
    next
      case (Cons x xs)
      with \<open>ms years_rx ([], s) = []\<close> less.prems
      have "t \<in> set (toks_of (finditer years_rx xs))" by (simp add: finditer_none)
      with less.hyps [of xs] Cons have "occurs xs t" by auto
      then obtain pre m post where "xs = pre @ m @ post" "year_match t m"
        unfolding occurs_def by blast
      with Cons have "s = (x # pre) @ m @ post" by simp
      with \<open>year_match t m\<close> show ?thesis unfolding occurs_def by blast
    qed
  next
    case (Cons st others)
    obtain caps rest where st: "st = (caps, rest)" by (cases st)
    with Cons have hd: "ms years_rx ([], s) = (caps, rest) # others" by simp
    from first_match [OF hd] obtain u sfx where
      u: "all_digits u" "sfx \<noteq> []" "s = u @ sfx @ rest" "year_match u (u @ sfx)"
         "tok_strs caps = [u]" by blast
    from u(1,3) have len: "length rest < length s" by (simp add: all_digits_def)
    from less.prems have "t = u \<or> t \<in> set (toks_of (finditer years_rx rest))"
      by (simp add: finditer_some [OF hd len] toks_of_Cons u(5))
    then show ?thesis
    proof
      assume "t = u"
      with u(3,4) show ?thesis
        unfolding occurs_def by (metis append_Nil append_assoc)
    next
      assume "t \<in> set (toks_of (finditer years_rx rest))"
      with less.hyps [OF len] have "occurs rest t" by auto
      then obtain pre m post where "rest = pre @ m @ post" "year_match t m"
        unfolding occurs_def by blast
      with u(3) have "s = (u @ sfx @ pre) @ m @ post" by simp
      with \<open>year_match t m\<close> show ?thesis unfolding occurs_def by blast
    qed
  qed
qed

text \<open>Every match in the text is covered by a token the scan reports: its number is
  the token, or the end of the token.\<close>

lemma scan_covers:
  "s = pre @ m @ post \<Longrightarrow> year_match d m \<Longrightarrow>
     \<exists>t \<in> set (toks_of (finditer years_rx s)). \<exists>a. t = a @ d \<and> list_all is_digit a"
proof (induction "length s" arbitrary: s pre rule: less_induct)
  case less
  from year_match_shape [OF less.prems(2)] obtain sfxd where
    sfxd: "m = d @ sfxd" "sfxd \<noteq> []" "list_all (\<lambda>c. \<not> is_digit c) sfxd" by blast
  from less.prems(2) have d: "all_digits d" by (simp add: year_match_def)
  show ?case
  proof (cases "ms years_rx ([], s)")
    case Nil
    have "pre \<noteq> []"
    proof
      assume "pre = []"
      with less.prems(1) match_exists [OF less.prems(2), of post] Nil show False by simp
    qed
    then obtain x pre' where pre: "pre = x # pre'" by (cases pre) auto
    with less.prems(1) have s: "s = x # (pre' @ m @ post)" by simp
    with Nil have "finditer years_rx s = finditer years_rx (pre' @ m @ post)"
      by (simp add: finditer_none)
    moreover from s less.hyps [of "pre' @ m @ post" pre'] less.prems(2)
    have "\<exists>t \<in> set (toks_of (finditer years_rx (pre' @ m @ post))).
            \<exists>a. t = a @ d \<and> list_all is_digit a" by simp
    ultimately show ?thesis by simp
  next
    case (Cons st others)
    obtain caps rest where st: "st = (caps, rest)" by (cases st)
    with Cons have hd: "ms years_rx ([], s) = (caps, rest) # others" by simp
    from first_match [OF hd] obtain u sfx where
      u: "all_digits u" "sfx \<noteq> []" "list_all (\<lambda>c. \<not> is_digit c) sfx" "s = u @ sfx @ rest"
         "tok_strs caps = [u]" by blast
    from u(1,4) have len: "length rest < length s" by (simp add: all_digits_def)
    have toks: "toks_of (finditer years_rx s) = u # toks_of (finditer years_rx rest)"
      by (simp add: finditer_some [OF hd len] toks_of_Cons u(5))
    have later: "\<exists>t \<in> set (toks_of (finditer years_rx s)). \<exists>a. t = a @ d \<and> list_all is_digit a"
      if "rest = us @ m @ post" for us
      using less.hyps [OF len that less.prems(2)] toks by auto
    from less.prems(1) u(4) have "(u @ sfx) @ rest = pre @ (m @ post)" by simp
    then obtain us where
      "u @ sfx = pre @ us \<and> us @ rest = m @ post \<or> (u @ sfx) @ us = pre \<and> rest = us @ m @ post"
      unfolding append_eq_append_conv2 by blast
    then show ?thesis
    proof (elim disjE conjE)
      assume "(u @ sfx) @ us = pre" "rest = us @ m @ post"
      then show ?thesis by (intro later)
    next
      assume a: "u @ sfx = pre @ us" "us @ rest = m @ post"
      then obtain vs where
        "u = pre @ vs \<and> vs @ sfx = us \<or> u @ vs = pre \<and> sfx = vs @ us"
        unfolding append_eq_append_conv2 by blast
      then show ?thesis
      proof (elim disjE conjE)
        assume b: "u = pre @ vs" "vs @ sfx = us"
        from b(1) u(1) have vs: "list_all is_digit vs" and pr: "list_all is_digit pre"
          by (simp_all add: all_digits_def)
        from a(2) b(2) sfxd(1) have "vs @ sfx @ rest = d @ sfxd @ post"
          by (metis append_assoc)
        then have "takeWhile is_digit (vs @ sfx @ rest) = takeWhile is_digit (d @ sfxd @ post)"
          by simp
        then have "vs = d"
          using takeWhile_digits [OF vs u(2,3)] takeWhile_digits [OF _ sfxd(2,3)] d
          by (simp add: all_digits_def)
        with b(1) pr have "u = pre @ d \<and> list_all is_digit pre" by simp
        with toks show ?thesis by auto
      next
        assume b: "u @ vs = pre" "sfx = vs @ us"
        show ?thesis
        proof (cases us)
          case Nil
          with a(2) have "rest = [] @ m @ post" by simp
          then show ?thesis by (intro later)
        next
          case (Cons c us')
          with b(2) u(3) have "\<not> is_digit c" by simp
          moreover from d obtain c' cs where "d = c' # cs" "is_digit c'"
            by (cases d) (auto simp: all_digits_def)
          with a(2) sfxd(1) Cons have "c = c'" "is_digit c'" by simp_all
          ultimately show ?thesis by simp
        qed
      qed
    qed
  qed
qed

lemma fold_max_Max: "fold max ns (n::int) = Max (set (n # ns))"
  by (rule Max.set_eq_fold [symmetric])

text \<open>The greatest of the numbers the scan reports is the greatest number of a match,
  0 when there is no match.\<close>

lemma scan_max:
  "max_or_0 (map decimal_value (toks_of (finditer years_rx text)))
     = (if \<exists>d. occurs text d then Max {decimal_value d |d. occurs text d} else 0)"
proof (cases "\<exists>d. occurs text d")
  case False
  have "toks_of (finditer years_rx text) = []"
  proof (rule ccontr)
    assume "toks_of (finditer years_rx text) \<noteq> []"
    then obtain t where "t \<in> set (toks_of (finditer years_rx text))"
      by (cases "toks_of (finditer years_rx text)") auto
    from scan_sound [OF this] False show False by blast
  qed
  with False show ?thesis by (simp add: max_or_0_def)
next
  case True
  then obtain d0 pre m post where o: "text = pre @ m @ post" "year_match d0 m"
    unfolding occurs_def by blast
  define nums where "nums = map decimal_value (toks_of (finditer years_rx text))"
  from scan_covers [OF o] have "nums \<noteq> []" by (auto simp: nums_def)
  then obtain n ns where nums: "nums = n # ns" by (cases nums) auto
  define r where "r = max_or_0 nums"
  have r: "r = Max (set nums)"
    by (simp add: r_def max_or_0_def nums fold_max_Max del: set_simps)
  then have "r \<in> set nums" using Max_in [of "set nums"] nums by simp
  then obtain t where t: "t \<in> set (toks_of (finditer years_rx text))" "r = decimal_value t"
    by (auto simp: nums_def)
  from scan_sound [OF t(1)] have dr: "occurs text t" .
  have ub: "decimal_value d' \<le> r" if "occurs text d'" for d'
  proof -
    from that obtain pre m post where "text = pre @ m @ post" "year_match d' m"
      unfolding occurs_def by blast
    from scan_covers [OF this] obtain u a where
      u: "u \<in> set (toks_of (finditer years_rx text))" "u = a @ d'" "list_all is_digit a"
      by blast
    from u(2,3) have "decimal_value d' \<le> decimal_value u" by (simp add: decimal_value_suffix_le)
    moreover from u(1) have "decimal_value u \<in> set nums" by (simp add: nums_def)
    then have "decimal_value u \<le> r" unfolding r by (intro Max_ge) simp_all
    ultimately show ?thesis by simp
  qed
  have lb: "0 \<le> decimal_value d'" if "occurs text d'" for d'
  proof -
    from that have "all_digits d'" unfolding occurs_def year_match_def by blast
    then show ?thesis by (intro decimal_value_nonneg all_digits_isdigit)
  qed
  have "{decimal_value d |d. occurs text d} \<subseteq> {0..r}" using ub lb by auto
  then have fin: "finite {decimal_value d |d. occurs text d}" by (rule finite_subset) simp
  have "Max {decimal_value d |d. occurs text d} = r"
  proof (rule Max_eqI [OF fin])
    show "r \<in> {decimal_value d |d. occurs text d}" using dr t(2) by blast
    show "y \<le> r" if "y \<in> {decimal_value d |d. occurs text d}" for y using that ub by blast
  qed
  with True show ?thesis by (simp add: r_def nums_def)
qed

text \<open>\<^verbatim>\<open>int\<close> on the tokens of a scan: it raises when a token is too long.\<close>

lemma collect_py_int:
  assumes "\<And>t. t \<in> set ts \<Longrightarrow> all_digits t"
  shows "collect py_int ts =
     (if list_ex (\<lambda>t. int_max_str_digits < length t) ts then Inl ValueError
      else Inr (map decimal_value ts))"
  using assms
proof (induction ts)
  case Nil
  then show ?case by simp
next
  case (Cons t ts)
  from Cons.prems have "all_digits t" by simp
  then have "py_int t = (if int_max_str_digits < length t then Inl ValueError
                         else Inr (decimal_value t))"
    by (simp add: py_int_def all_digits_def)
  moreover from Cons have "collect py_int ts =
     (if list_ex (\<lambda>t. int_max_str_digits < length t) ts then Inl ValueError
      else Inr (map decimal_value ts))"
    by simp
  ultimately show ?case by simp
qed

lemma long_token_iff:
  "list_ex (\<lambda>t. int_max_str_digits < length t) (toks_of (finditer years_rx text))
     \<longleftrightarrow> (\<exists>d. occurs text d \<and> int_max_str_digits < length d)"
proof
  assume "list_ex (\<lambda>t. int_max_str_digits < length t) (toks_of (finditer years_rx text))"
  then obtain t where "t \<in> set (toks_of (finditer years_rx text))"
    "int_max_str_digits < length t"
    by (auto simp: list_ex_iff)
  with scan_sound show "\<exists>d. occurs text d \<and> int_max_str_digits < length d" by blast
next
  assume "\<exists>d. occurs text d \<and> int_max_str_digits < length d"
  then obtain d pre m post where "text = pre @ m @ post" "year_match d m"
    and long: "int_max_str_digits < length d"
    unfolding occurs_def by blast
  from scan_covers [OF this(1,2)] obtain t a where
    t: "t \<in> set (toks_of (finditer years_rx text))" "t = a @ d" by blast
  from t(2) long have "int_max_str_digits < length t" by simp
  with t(1) show "list_ex (\<lambda>t. int_max_str_digits < length t) (toks_of (finditer years_rx text))"
    unfolding list_ex_iff by blast
qed

text \<open>What \<^verbatim>\<open>find_years_of_experience\<close> does on every text.\<close>

lemma find_years_char:
  "find_years_of_experience text =
     (if \<exists>d. occurs text d \<and> int_max_str_digits < length d then Inl ValueError
      else Inr (if \<exists>d. occurs text d then Max {decimal_value d |d. occurs text d} else 0))"
proof -
  have "all_digits t" if "t \<in> set (toks_of (finditer years_rx text))" for t
    using scan_sound [OF that] unfolding occurs_def year_match_def by blast
  then have "collect py_int (toks_of (finditer years_rx text)) =
     (if list_ex (\<lambda>t. int_max_str_digits < length t) (toks_of (finditer years_rx text))
      then Inl ValueError
      else Inr (map decimal_value (toks_of (finditer years_rx text))))"
    by (rule collect_py_int)
  then show ?thesis
    unfolding find_years_toks long_token_iff by (simp add: scan_max)
qed

text \<open>Both patterns of the program read at least one character, so the scan never
  meets a match of no character.\<close>

lemma years_rx_consumes:
  "x \<in> set (ms years_rx ([], s)) \<Longrightarrow> length (snd x) < length s"
proof -
  assume "x \<in> set (ms years_rx ([], s))"
  then obtain d m where "year_match d m" "s = m @ snd x"
    unfolding ms_years_rx_iff year_match_def by blast
  moreover from year_match_shape [OF this(1)] have "m \<noteq> []" by auto
  ultimately show ?thesis by simp
qed

lemma words_rx_consumes:
  "x \<in> set (ms words_rx (c, s)) \<Longrightarrow> length (snd x) < length s"
  unfolding words_rx_def ms_Seq_pair_iff ms_Atom_iff ms_Star_Atom_iff by auto

text \<open>The marker \<^verbatim>\<open>Post-graduate\<close> of \<^verbatim>\<open>find_education\<close> has a capital letter, and is
  looked for in a lowercased text: it is never found.\<close>

lemma lower_char_not_capital_P: "lower_char c \<noteq> CHR ''P''"
proof
  assume a: "lower_char c = CHR ''P''"
  have p: "code_point CHR ''P'' = 80" "lower_char CHR ''P'' \<noteq> CHR ''P''" by code_simp+
  from lower_char_range [of c] a p(1) have "lower_char c = c" by auto
  with a p(2) show False by simp
qed

lemma post_graduate_never: "\<not> py_in ''Post-graduate'' (py_lower text)"
proof
  assume "py_in ''Post-graduate'' (py_lower text)"
  then obtain pre post where "py_lower text = pre @ ''Post-graduate'' @ post"
    unfolding py_in_iff by blast
  then have "CHR ''P'' \<in> set (py_lower text)" by simp
  then obtain c where "lower_char c = CHR ''P''" by (auto simp: py_lower_def)
  with lower_char_not_capital_P show False by blast
qed

section \<open>The years of experience\<close>

text \<open>
  C4, as the specification has it: \<^verbatim>\<open>find_years_of_experience\<close> returns the greatest
  number in a match of \<^verbatim>\<open><N>+ years\<close>, \<^verbatim>\<open><N> years\<close> or \<^verbatim>\<open><N>-year\<close>, and 0 when there is
  no match. The text \<^verbatim>\<open>10+years\<close> has no space and no hyphen, so none of the three
  occurs in it; the function returns 10.
\<close>

theorem find_years_literal_counterexample:
  "find_years_of_experience ''10+years''
     \<noteq> Inr (if \<exists>d. occurs_literally ''10+years'' d
             then Max {decimal_value d |d. occurs_literally ''10+years'' d} else 0)"
proof -
  have v: "find_years_of_experience ''10+years'' = Inr 10" by code_simp
  have none: "list_all (\<lambda>c. lower_char c \<noteq> CHR '' '' \<and> lower_char c \<noteq> CHR ''-'') ''10+years''"
    by code_simp
  have "\<not> occurs_literally ''10+years'' d" for d
  proof
    assume "occurs_literally ''10+years'' d"
    then obtain pre post y where t: "''10+years'' = pre @ (d @ y) @ post"
      and y: "py_lower y = ''+ years'' \<or> py_lower y = '' years'' \<or> py_lower y = ''-year''"
      unfolding occurs_literally_def literal_match_def by blast
    from y have "CHR '' '' \<in> set (py_lower y) \<or> CHR ''-'' \<in> set (py_lower y)" by auto
    then obtain c where c: "c \<in> set y" "lower_char c = CHR '' '' \<or> lower_char c = CHR ''-''"
      by (auto simp: py_lower_def)
    have "set y \<subseteq> set (pre @ (d @ y) @ post)" by auto
    with t c(1) have "c \<in> set ''10+years''" by (simp only: subsetD)
    with none c(2) show False by (simp only: list_all_iff) blast
  qed
  with v show ?thesis by simp
qed

text \<open>
  C4, amended: when no part of the text has one of the forms below with a number of
  more than 4300 digits, \<^verbatim>\<open>find_years_of_experience\<close> returns the greatest number \<open>N\<close>
  for which a part of the text has one of the forms: \<open>N\<close>, white space or none, \<^verbatim>\<open>+\<close>,
  white space or none, \<^verbatim>\<open>years\<close>; \<open>N\<close>, white space, \<^verbatim>\<open>years\<close>; \<open>N\<close>, \<^verbatim>\<open>-\<close>, \<^verbatim>\<open>year\<close>
  (letters in either case); it returns 0 when no part of the text has such a form.
  When a part of the text has such a form with a number of more than 4300 digits,
  \<^verbatim>\<open>int\<close> raises \<^verbatim>\<open>ValueError\<close> and nothing is returned.
\<close>

theorem find_years_is_max:
  "find_years_of_experience text =
     (if \<exists>d. occurs text d \<and> int_max_str_digits < length d then Inl ValueError
      else Inr (if \<exists>d. occurs text d then Max {decimal_value d |d. occurs text d} else 0))"
  by (rule find_years_char)

theorem find_years_is_max_witness:
  "find_years_of_experience ''3 years, then 12+ years'' = Inr 12
   \<and> occurs ''3 years, then 12+ years'' ''12''
   \<and> Max {decimal_value d |d. occurs ''3 years, then 12+ years'' d} = 12"
proof -
  have "form_plus ''12'' ''12+ years''"
    unfolding form_plus_def
    by (rule exI [of _ "[]"], rule exI [of _ "'' ''"], rule exI [of _ "''years''"]) code_simp
  moreover have "all_digits ''12''" by code_simp
  ultimately have "year_match ''12'' ''12+ years''" by (simp add: year_match_def)
  moreover have "''3 years, then 12+ years'' = ''3 years, then '' @ ''12+ years'' @ []"
    by simp
  ultimately have o: "occurs ''3 years, then 12+ years'' ''12''"
    unfolding occurs_def by blast
  have v: "find_years_of_experience ''3 years, then 12+ years'' = Inr 12" by code_simp
  from o have e: "\<exists>d. occurs ''3 years, then 12+ years'' d" by blast
  from find_years_is_max [of "''3 years, then 12+ years''"] v e
  have "Max {decimal_value d |d. occurs ''3 years, then 12+ years'' d} = 12"
    by (simp split: if_splits)
  with o v show ?thesis by simp
qed

section \<open>When the scorer raises\<close>

text \<open>A number of 4301 digits before \<^verbatim>\<open>years\<close>: \<^verbatim>\<open>int\<close> raises, and so do the functions
  that call it.\<close>

lemma long_number_occurs:
  "occurs (replicate 4301 CHR ''9'' @ '' years'') (replicate 4301 CHR ''9'')"
proof -
  have "is_digit CHR ''9''" by code_simp
  then have "all_digits (replicate 4301 CHR ''9'')"
    by (simp add: all_digits_def list_all_iff)
  moreover have "form_space (replicate 4301 CHR ''9'') (replicate 4301 CHR ''9'' @ '' years'')"
    unfolding form_space_def
    by (rule exI [of _ "'' ''"], rule exI [of _ "''years''"]) (simp, code_simp)
  ultimately have "year_match (replicate 4301 CHR ''9'') (replicate 4301 CHR ''9'' @ '' years'')"
    by (simp add: year_match_def)
  moreover have "replicate 4301 CHR ''9'' @ '' years''
      = [] @ (replicate 4301 CHR ''9'' @ '' years'') @ []" by simp
  ultimately show ?thesis unfolding occurs_def by blast
qed

lemma find_years_raises:
  "find_years_of_experience (replicate 4301 CHR ''9'' @ '' years'') = Inl ValueError"
proof -
  have "int_max_str_digits < length (replicate 4301 CHR ''9'')"
    by (simp add: int_max_str_digits_def)
  with long_number_occurs
  have "\<exists>d. occurs (replicate 4301 CHR ''9'' @ '' years'') d \<and> int_max_str_digits < length d"
    by blast
  then show ?thesis by (simp add: find_years_char)
qed

lemma score_resume_raises_iff:
  "score_resume text required_skills = Inl e \<longleftrightarrow>
     e = ValueError \<and> (\<exists>d. occurs text d \<and> int_max_str_digits < length d)"
  unfolding score_resume_Inl find_years_char by auto

lemma score_resume_returns:
  "\<not> (\<exists>d. occurs text d \<and> int_max_str_digits < length d) \<Longrightarrow>
     \<exists>r. score_resume text required_skills = Inr r"
  using score_resume_raises_iff [of "text" required_skills]
  by (cases "score_resume text required_skills") auto

end
